theory Spec2Isabelle
  imports Main "HOL-Library.AList" "HOL-Library.Multiset"
begin

section \<open>Data model of \<open>algorithm.py\<close>\<close>

text \<open>
  Python exceptions the code can raise by itself. \<open>KeyError_label\<close> is the
  \<open>KeyError\<close> of a lookup in \<open>self.airports\<close> (an unknown airport label),
  \<open>KeyError_vertex\<close> the \<open>KeyError\<close> of a lookup in the local \<open>scc_map\<close>,
  \<open>IndexError\<close> the one of indexing the \<open>visited\<close> list, and \<open>StopIteration\<close> the
  one of \<open>next\<close> on an exhausted generator. The interpreter's recursion limit is not
  modelled.
\<close>

datatype error = KeyError_label string | KeyError_vertex int | IndexError | StopIteration

text \<open>
  A Python \<open>dict\<close> keeps its keys in insertion order; it is represented by an association
  list with distinct keys. \<open>defaultdict(list)\<close> and \<open>defaultdict(set)\<close> are such
  dictionaries whose \<open>__getitem__\<close> inserts an empty value for a missing key. A Python
  \<open>set\<close> of integers is represented by a duplicate-free list.
\<close>

type_synonym ('k, 'v) defaultdict = "('k \<times> 'v list) list"

type_synonym adjacency = "(int, int) defaultdict"

record Graph =
  airports :: "(string \<times> int) list"
  vertices :: nat
  graph :: adjacency

definition Graph_init :: "(string \<times> int) list \<Rightarrow> Graph" where
  "Graph_init aps = \<lparr>airports = aps, vertices = length aps, graph = []\<rparr>"

subsection \<open>Lists indexed the Python way\<close>

definition py_index :: "nat \<Rightarrow> int \<Rightarrow> nat option" where
  "py_index n i =
     (if 0 \<le> i \<and> i < int n then Some (nat i)
      else if i < 0 \<and> - int n \<le> i then Some (nat (int n + i))
      else None)"

definition list_get :: "'a list \<Rightarrow> int \<Rightarrow> error + 'a" where
  "list_get xs i = (case py_index (length xs) i of None \<Rightarrow> Inl IndexError | Some k \<Rightarrow> Inr (xs ! k))"

definition list_set :: "'a list \<Rightarrow> int \<Rightarrow> 'a \<Rightarrow> error + 'a list" where
  "list_set xs i v = (case py_index (length xs) i of None \<Rightarrow> Inl IndexError | Some k \<Rightarrow> Inr (xs[k := v]))"

subsection \<open>Dictionaries with a default\<close>

definition keys :: "('k, 'v) defaultdict \<Rightarrow> 'k list" where
  "keys d = map fst d"

text \<open>The value stored under a key, read without touching the dictionary.\<close>

definition adj :: "('k, 'v) defaultdict \<Rightarrow> 'k \<Rightarrow> 'v list" where
  "adj d k = (case map_of d k of None \<Rightarrow> [] | Some vs \<Rightarrow> vs)"

text \<open>\<open>d[k]\<close> on a \<open>defaultdict\<close>: a missing key is inserted, at the end, with the empty value.\<close>

definition dd_get :: "('k, 'v) defaultdict \<Rightarrow> 'k \<Rightarrow> 'v list \<times> ('k, 'v) defaultdict" where
  "dd_get d k = (case map_of d k of None \<Rightarrow> ([], d @ [(k, [])]) | Some vs \<Rightarrow> (vs, d))"

text \<open>\<open>s.add(x)\<close> on a set.\<close>

definition set_add :: "'a \<Rightarrow> 'a list \<Rightarrow> 'a list" where
  "set_add x s = (if x \<in> set s then s else s @ [x])"

section \<open>The vertex store\<close>

text \<open>\<open>self.graph[from_airport].append(to_airport)\<close>\<close>

definition add_edge :: "Graph \<Rightarrow> int \<Rightarrow> int \<Rightarrow> Graph" where
  "add_edge G from_airport to_airport =
     (case dd_get (graph G) from_airport of
        (ns, g1) \<Rightarrow> G\<lparr>graph := AList.update from_airport (ns @ [to_airport]) g1\<rparr>)"

fun add_routes :: "Graph \<Rightarrow> (string \<times> string) list \<Rightarrow> error + Graph" where
  "add_routes G [] = Inr G"
| "add_routes G ((from_airport, to_airport) # routes) =
     (case map_of (airports G) from_airport of
        None \<Rightarrow> Inl (KeyError_label from_airport)
      | Some f \<Rightarrow>
          (case map_of (airports G) to_airport of
             None \<Rightarrow> Inl (KeyError_label to_airport)
           | Some t \<Rightarrow> add_routes (add_edge G f t) routes))"

section \<open>Kosaraju's two passes\<close>

text \<open>
  The recursive traversals work on \<open>self.graph\<close>, the \<open>visited\<close> list and the
  \<open>stack\<close> (or \<open>component\<close>) list, all three mutated in place; the model passes them in
  and returns them. The \<open>for\<close> loop over the neighbours is the second function of each
  pair.
\<close>

function depth_first_search ::
    "adjacency \<Rightarrow> int \<Rightarrow> bool list \<Rightarrow> int list \<Rightarrow> error + (adjacency \<times> bool list \<times> int list)"
  and depth_first_search_loop ::
    "adjacency \<Rightarrow> int list \<Rightarrow> bool list \<Rightarrow> int list \<Rightarrow> error + (adjacency \<times> bool list \<times> int list)"
where
  "depth_first_search g vertex visited stack =
     (case list_set visited vertex True of
        Inl e \<Rightarrow> Inl e
      | Inr visited1 \<Rightarrow>
          (case dd_get g vertex of
             (ns, g1) \<Rightarrow>
               (case depth_first_search_loop g1 ns visited1 stack of
                  Inl e \<Rightarrow> Inl e
                | Inr (g2, visited2, stack2) \<Rightarrow> Inr (g2, visited2, stack2 @ [vertex]))))"
| "depth_first_search_loop g [] visited stack = Inr (g, visited, stack)"
| "depth_first_search_loop g (neighbor # ns) visited stack =
     (case list_get visited neighbor of
        Inl e \<Rightarrow> Inl e
      | Inr b \<Rightarrow>
          if \<not> b then
            (case depth_first_search g neighbor visited stack of
               Inl e \<Rightarrow> Inl e
             | Inr (g1, visited1, stack1) \<Rightarrow> depth_first_search_loop g1 ns visited1 stack1)
          else depth_first_search_loop g ns visited stack)"
  by pat_completeness auto

text \<open>
  Every recursive call marks one more entry of \<open>visited\<close>, so the number of unmarked
  entries bounds the recursion.
\<close>

definition unvisited :: "bool list \<Rightarrow> nat" where
  "unvisited visited = length (filter Not visited)"

lemma unvisited_update_le: "unvisited (xs[k := True]) \<le> unvisited xs"
  unfolding unvisited_def
  by (induction xs arbitrary: k) (auto split: nat.splits)

lemma unvisited_update_less:
  "k < length xs \<Longrightarrow> \<not> xs ! k \<Longrightarrow> unvisited (xs[k := True]) < unvisited xs"
  unfolding unvisited_def
proof (induction xs arbitrary: k)
  case Nil
  then show ?case by simp
next
  case (Cons a xs)
  show ?case
  proof (cases k)
    case 0
    with Cons.prems show ?thesis by simp
  next
    case (Suc j)
    with Cons.prems Cons.IH [of j] show ?thesis by simp
  qed
qed

lemma py_index_less: "py_index n i = Some k \<Longrightarrow> k < n"
  by (auto simp: py_index_def split: if_splits)

lemma list_set_unvisited_le:
  "list_set vis v True = Inr vis1 \<Longrightarrow> unvisited vis1 \<le> unvisited vis"
  by (auto simp: list_set_def unvisited_update_le split: option.splits)

lemma list_set_unvisited_less:
  "list_get vis v = Inr False \<Longrightarrow> list_set vis v True = Inr vis1 \<Longrightarrow>
   unvisited vis1 < unvisited vis"
  by (auto simp: list_set_def list_get_def split: option.splits
      dest: py_index_less intro!: unvisited_update_less)

lemma depth_first_search_dom_unvisited:
  "depth_first_search_depth_first_search_loop_dom (Inl (g, v, vis, st)) \<Longrightarrow>
     depth_first_search g v vis st = Inr (g', vis', st') \<Longrightarrow> unvisited vis' \<le> unvisited vis"
  "depth_first_search_depth_first_search_loop_dom (Inr (g, ns, vis, st)) \<Longrightarrow>
     depth_first_search_loop g ns vis st = Inr (g', vis', st') \<Longrightarrow> unvisited vis' \<le> unvisited vis"
proof (induction g v vis st and g ns vis st arbitrary: g' vis' st' and g' vis' st'
    rule: depth_first_search_depth_first_search_loop.pinduct)
  case (1 g vertex visited stack)
  then show ?case
    by (auto simp: depth_first_search.psimps split: sum.splits prod.splits
        dest!: list_set_unvisited_le) fastforce
next
  case (2 g visited stack)
  then show ?case by (simp add: depth_first_search_loop.psimps)
next
  case (3 g neighbor ns visited stack)
  then show ?case
    by (auto simp: depth_first_search_loop.psimps split: sum.splits prod.splits if_splits)
      fastforce
qed

termination depth_first_search
  apply (relation "inv_image (less_than <*lex*> less_than <*lex*> less_than)
    (\<lambda>x. case x of
       Inl (g, v, vis, st) \<Rightarrow>
         (case list_set vis v True of
            Inl e \<Rightarrow> (0, 0, 0)
          | Inr vis1 \<Rightarrow> (unvisited vis1, 1::nat, 0::nat))
     | Inr (g, ns, vis, st) \<Rightarrow> (unvisited vis, 0, length ns))")
  subgoal by (intro wf_inv_image wf_lex_prod wf_less_than)
  subgoal by simp
  subgoal by (auto split: sum.splits dest: list_set_unvisited_less)
  subgoal for g neighbor ns visited stack b ba x y xa ya
    using depth_first_search_dom_unvisited(1) [of g neighbor visited stack x xa ya] by auto
  subgoal by simp
  done

function depth_first_search_transposed ::
    "adjacency \<Rightarrow> int \<Rightarrow> bool list \<Rightarrow> int list \<Rightarrow> error + (adjacency \<times> bool list \<times> int list)"
  and depth_first_search_transposed_loop ::
    "adjacency \<Rightarrow> int list \<Rightarrow> bool list \<Rightarrow> int list \<Rightarrow> error + (adjacency \<times> bool list \<times> int list)"
where
  "depth_first_search_transposed g vertex visited component =
     (case list_set visited vertex True of
        Inl e \<Rightarrow> Inl e
      | Inr visited1 \<Rightarrow>
          (case dd_get g vertex of
             (ns, g1) \<Rightarrow> depth_first_search_transposed_loop g1 ns visited1 (component @ [vertex])))"
| "depth_first_search_transposed_loop g [] visited component = Inr (g, visited, component)"
| "depth_first_search_transposed_loop g (neighbor # ns) visited component =
     (case list_get visited neighbor of
        Inl e \<Rightarrow> Inl e
      | Inr b \<Rightarrow>
          if \<not> b then
            (case depth_first_search_transposed g neighbor visited component of
               Inl e \<Rightarrow> Inl e
             | Inr (g1, visited1, component1) \<Rightarrow>
                 depth_first_search_transposed_loop g1 ns visited1 component1)
          else depth_first_search_transposed_loop g ns visited component)"
  by pat_completeness auto

lemma depth_first_search_transposed_dom_unvisited:
  "depth_first_search_transposed_depth_first_search_transposed_loop_dom (Inl (g, v, vis, st)) \<Longrightarrow>
     depth_first_search_transposed g v vis st = Inr (g', vis', st') \<Longrightarrow>
     unvisited vis' \<le> unvisited vis"
  "depth_first_search_transposed_depth_first_search_transposed_loop_dom (Inr (g, ns, vis, st)) \<Longrightarrow>
     depth_first_search_transposed_loop g ns vis st = Inr (g', vis', st') \<Longrightarrow>
     unvisited vis' \<le> unvisited vis"
proof (induction g v vis st and g ns vis st arbitrary: g' vis' st' and g' vis' st'
    rule: depth_first_search_transposed_depth_first_search_transposed_loop.pinduct)
  case (1 g vertex visited component)
  then show ?case
    by (auto simp: depth_first_search_transposed.psimps split: sum.splits prod.splits
        dest!: list_set_unvisited_le) fastforce
next
  case (2 g visited component)
  then show ?case by (simp add: depth_first_search_transposed_loop.psimps)
next
  case (3 g neighbor ns visited component)
  then show ?case
    by (auto simp: depth_first_search_transposed_loop.psimps
        split: sum.splits prod.splits if_splits) fastforce
qed

termination depth_first_search_transposed
  apply (relation "inv_image (less_than <*lex*> less_than <*lex*> less_than)
    (\<lambda>x. case x of
       Inl (g, v, vis, st) \<Rightarrow>
         (case list_set vis v True of
            Inl e \<Rightarrow> (0, 0, 0)
          | Inr vis1 \<Rightarrow> (unvisited vis1, 1::nat, 0::nat))
     | Inr (g, ns, vis, st) \<Rightarrow> (unvisited vis, 0, length ns))")
  subgoal by (intro wf_inv_image wf_lex_prod wf_less_than)
  subgoal by simp
  subgoal by (auto split: sum.splits dest: list_set_unvisited_less)
  subgoal for g neighbor ns visited component b ba x y xa ya
    using depth_first_search_transposed_dom_unvisited(1) [of g neighbor visited component x xa ya]
    by auto
  subgoal by simp
  done

text \<open>
  \<open>_transpose_graph\<close>: the loop over the keys of \<open>self.graph\<close>, reading
  \<open>self.graph[from_airport]\<close> through the \<open>defaultdict\<close>. The result is the pair of
  \<open>self\<close> after the call and the new graph.
\<close>

fun transpose_graph_loop :: "adjacency \<Rightarrow> int list \<Rightarrow> Graph \<Rightarrow> adjacency \<times> Graph" where
  "transpose_graph_loop g [] transposed_graph = (g, transposed_graph)"
| "transpose_graph_loop g (from_airport # ks) transposed_graph =
     (case dd_get g from_airport of
        (ns, g1) \<Rightarrow>
          transpose_graph_loop g1 ks
            (fold (\<lambda>to_airport T. add_edge T to_airport from_airport) ns transposed_graph))"

definition transpose_graph :: "Graph \<Rightarrow> Graph \<times> Graph" where
  "transpose_graph G =
     (case transpose_graph_loop (graph G) (keys (graph G)) (Graph_init (airports G)) of
        (g1, transposed_graph) \<Rightarrow> (G\<lparr>graph := g1\<rparr>, transposed_graph))"

text \<open>The first loop of \<open>find_strongly_connected_components\<close>, over \<open>range(self.vertices)\<close>.\<close>

fun first_pass ::
  "adjacency \<Rightarrow> int list \<Rightarrow> bool list \<Rightarrow> int list \<Rightarrow> error + (adjacency \<times> bool list \<times> int list)"
where
  "first_pass g [] visited stack = Inr (g, visited, stack)"
| "first_pass g (i # is) visited stack =
     (case list_get visited i of
        Inl e \<Rightarrow> Inl e
      | Inr b \<Rightarrow>
          if \<not> b then
            (case depth_first_search g i visited stack of
               Inl e \<Rightarrow> Inl e
             | Inr (g1, visited1, stack1) \<Rightarrow> first_pass g1 is visited1 stack1)
          else first_pass g is visited stack)"

text \<open>The \<open>while stack\<close> loop: \<open>stack.pop()\<close> takes the last element.\<close>

function second_pass ::
  "adjacency \<Rightarrow> int list \<Rightarrow> bool list \<Rightarrow> int list list \<Rightarrow>
   error + (adjacency \<times> bool list \<times> int list list)"
where
  "second_pass t stack visited sccs =
     (if stack = [] then Inr (t, visited, sccs)
      else
        (let vertex = last stack; stack1 = butlast stack in
         case list_get visited vertex of
           Inl e \<Rightarrow> Inl e
         | Inr b \<Rightarrow>
             if \<not> b then
               (case depth_first_search_transposed t vertex visited [] of
                  Inl e \<Rightarrow> Inl e
                | Inr (t1, visited1, component) \<Rightarrow>
                    second_pass t1 stack1 visited1 (sccs @ [component]))
             else second_pass t stack1 visited sccs))"
  by pat_completeness auto

termination second_pass
  by (relation "measure (\<lambda>(t, stack, visited, sccs). length stack)") auto

definition find_strongly_connected_components :: "Graph \<Rightarrow> error + (int list list \<times> Graph)" where
  "find_strongly_connected_components G =
     (case first_pass (graph G) (map int [0..<vertices G]) (replicate (vertices G) False) [] of
        Inl e \<Rightarrow> Inl e
      | Inr (g1, visited1, stack) \<Rightarrow>
          (case transpose_graph (G\<lparr>graph := g1\<rparr>) of
             (G1, transposed_graph) \<Rightarrow>
               (case second_pass (graph transposed_graph) stack (replicate (vertices G) False) [] of
                  Inl e \<Rightarrow> Inl e
                | Inr (t1, visited2, sccs) \<Rightarrow> Inr (sccs, G1))))"

section \<open>Condensation and in-degree count\<close>

text \<open>
  \<open>scc_map\<close>: the two nested loops that store, for each airport of each component, the
  component's index (a later component overwrites an earlier one).
\<close>

fun scc_map_assign :: "nat \<Rightarrow> int list \<Rightarrow> (int \<rightharpoonup> nat) \<Rightarrow> (int \<rightharpoonup> nat)" where
  "scc_map_assign idx [] scc_map = scc_map"
| "scc_map_assign idx (airport # scc) scc_map = scc_map_assign idx scc (scc_map(airport \<mapsto> idx))"

fun scc_map_loop :: "nat \<Rightarrow> int list list \<Rightarrow> (int \<rightharpoonup> nat) \<Rightarrow> (int \<rightharpoonup> nat)" where
  "scc_map_loop idx [] scc_map = scc_map"
| "scc_map_loop idx (scc # sccs) scc_map = scc_map_loop (Suc idx) sccs (scc_map_assign idx scc scc_map)"

definition scc_map_of :: "int list list \<Rightarrow> (int \<rightharpoonup> nat)" where
  "scc_map_of sccs = scc_map_loop 0 sccs Map.empty"

type_synonym compressed = "(nat, nat) defaultdict"

text \<open>\<open>compressed_graph[i].add(j)\<close>\<close>

definition compressed_add :: "compressed \<Rightarrow> nat \<Rightarrow> nat \<Rightarrow> compressed" where
  "compressed_add cg i j = (case dd_get cg i of (s, cg1) \<Rightarrow> AList.update i (set_add j s) cg1)"

fun compress_edges :: "(int \<rightharpoonup> nat) \<Rightarrow> int \<Rightarrow> int list \<Rightarrow> compressed \<Rightarrow> error + compressed" where
  "compress_edges scc_map from_airport [] cg = Inr cg"
| "compress_edges scc_map from_airport (to_airport # ns) cg =
     (case scc_map from_airport of
        None \<Rightarrow> Inl (KeyError_vertex from_airport)
      | Some i \<Rightarrow>
          (case scc_map to_airport of
             None \<Rightarrow> Inl (KeyError_vertex to_airport)
           | Some j \<Rightarrow>
               if i \<noteq> j then compress_edges scc_map from_airport ns (compressed_add cg i j)
               else compress_edges scc_map from_airport ns cg))"

fun compress_keys ::
  "(int \<rightharpoonup> nat) \<Rightarrow> adjacency \<Rightarrow> int list \<Rightarrow> compressed \<Rightarrow> error + (adjacency \<times> compressed)"
where
  "compress_keys scc_map g [] cg = Inr (g, cg)"
| "compress_keys scc_map g (from_airport # ks) cg =
     (case dd_get g from_airport of
        (ns, g1) \<Rightarrow>
          (case compress_edges scc_map from_airport ns cg of
             Inl e \<Rightarrow> Inl e
           | Inr cg1 \<Rightarrow> compress_keys scc_map g1 ks cg1))"

definition build_compressed_graph_from_sccs ::
  "Graph \<Rightarrow> int list list \<Rightarrow> error + (compressed \<times> Graph)" where
  "build_compressed_graph_from_sccs G sccs =
     (case compress_keys (scc_map_of sccs) (graph G) (keys (graph G)) [] of
        Inl e \<Rightarrow> Inl e
      | Inr (g1, cg) \<Rightarrow> Inr (cg, G\<lparr>graph := g1\<rparr>))"

text \<open>
  \<open>in_degree\<close> is a \<open>defaultdict(int)\<close>, read here as a function that is 0 where
  nothing was counted.
\<close>

definition in_degree_of :: "compressed \<Rightarrow> nat \<Rightarrow> nat" where
  "in_degree_of cg =
     fold (\<lambda>u d. fold (\<lambda>v d. d(v := d v + 1)) (adj cg u) d) (keys cg) (\<lambda>_. 0)"

definition calculate_routes_needed :: "compressed \<Rightarrow> nat \<Rightarrow> nat" where
  "calculate_routes_needed cg start_scc =
     (let in_degree = in_degree_of cg in
      fold (\<lambda>node zero_in_degree_count.
              if node \<noteq> start_scc \<and> in_degree node = 0 then zero_in_degree_count + 1
              else zero_in_degree_count)
        [0..<length cg] 0)"

text \<open>
  \<open>next(i for i, scc in enumerate(sccs) if self.airports[start_airport] in scc)\<close>: the
  label is looked up once per component examined, so not at all when there is none.
\<close>

fun start_scc_of :: "(string \<times> int) list \<Rightarrow> string \<Rightarrow> int list list \<Rightarrow> nat \<Rightarrow> error + nat" where
  "start_scc_of aps start_airport [] i = Inl StopIteration"
| "start_scc_of aps start_airport (scc # sccs) i =
     (case map_of aps start_airport of
        None \<Rightarrow> Inl (KeyError_label start_airport)
      | Some v \<Rightarrow> if v \<in> set scc then Inr i else start_scc_of aps start_airport sccs (Suc i))"

definition find_minimum_additional_routes :: "Graph \<Rightarrow> string \<Rightarrow> error + (nat \<times> Graph)" where
  "find_minimum_additional_routes G start_airport =
     (case find_strongly_connected_components G of
        Inl e \<Rightarrow> Inl e
      | Inr (sccs, G1) \<Rightarrow>
          (case build_compressed_graph_from_sccs G1 sccs of
             Inl e \<Rightarrow> Inl e
           | Inr (compressed_graph, G2) \<Rightarrow>
               (case start_scc_of (airports G2) start_airport sccs 0 of
                  Inl e \<Rightarrow> Inl e
                | Inr start_scc \<Rightarrow> Inr (calculate_routes_needed compressed_graph start_scc, G2))))"

section \<open>The sample of \<open>test.py\<close>\<close>

definition sample_airports :: "(string \<times> int) list" where
  "sample_airports =
     [(''DSM'', 0), (''ORD'', 1), (''BGI'', 2), (''LGA'', 3), (''TLV'', 4), (''DEL'', 5),
      (''DOH'', 6), (''CDG'', 7), (''SIN'', 8), (''BUD'', 9), (''JFK'', 10), (''HND'', 11),
      (''ICN'', 12), (''SFO'', 13), (''SAN'', 14), (''EYW'', 15), (''LHR'', 16), (''EWR'', 17)]"

definition sample_routes :: "(string \<times> string) list" where
  "sample_routes =
     [(''DSM'', ''ORD''), (''ORD'', ''BGI''), (''BGI'', ''LGA''), (''LGA'', ''ORD''),
      (''TLV'', ''DEL''), (''DEL'', ''CDG''), (''CDG'', ''BUD''), (''CDG'', ''DEL''),
      (''CDG'', ''SIN''), (''SIN'', ''CDG''), (''DEL'', ''DOH''), (''JFK'', ''HND''),
      (''HND'', ''ICN''), (''ICN'', ''JFK''), (''SFO'', ''SAN''), (''SAN'', ''EYW''),
      (''EYW'', ''SFO''), (''SFO'', ''LHR''), (''LHR'', ''SFO''), (''EWR'', ''HND'')]"

section \<open>\<open>add_edge\<close> and \<open>_transpose_graph\<close> over a store of list objects\<close>

text \<open>
  To speak about sharing, the adjacency lists are taken as objects: a store is the list
  of all list objects made so far, an address is a position in it, and a
  \<open>defaultdict(list)\<close> maps each key to the address of its list. \<open>add_edge\<close> and
  \<open>_transpose_graph\<close> are written again over this store. The \<open>for\<close> loop over
  \<open>self.graph[from_airport]\<close> runs over the list as it is when the loop starts.
\<close>

type_synonym store = "int list list"

type_synonym refdict = "(int \<times> nat) list"

definition contents :: "store \<Rightarrow> nat \<Rightarrow> int list" where
  "contents s a = (if a < length s then s ! a else [])"

text \<open>\<open>d[k]\<close>: a missing key gets a new, empty list object.\<close>

definition ref_getitem :: "refdict \<Rightarrow> store \<Rightarrow> int \<Rightarrow> nat \<times> refdict \<times> store" where
  "ref_getitem d s k =
     (case map_of d k of
        None \<Rightarrow> (length s, d @ [(k, length s)], s @ [[]])
      | Some a \<Rightarrow> (a, d, s))"

text \<open>\<open>.append(x)\<close> on the list object at address \<open>a\<close>.\<close>

definition ref_append :: "store \<Rightarrow> nat \<Rightarrow> int \<Rightarrow> store" where
  "ref_append s a x = s[a := contents s a @ [x]]"

definition ref_add_edge :: "refdict \<Rightarrow> store \<Rightarrow> int \<Rightarrow> int \<Rightarrow> refdict \<times> store" where
  "ref_add_edge d s from_airport to_airport =
     (case ref_getitem d s from_airport of (a, d1, s1) \<Rightarrow> (d1, ref_append s1 a to_airport))"

fun ref_transpose_graph_loop ::
  "refdict \<Rightarrow> int list \<Rightarrow> refdict \<Rightarrow> store \<Rightarrow> refdict \<times> refdict \<times> store" where
  "ref_transpose_graph_loop self [] transposed s = (self, transposed, s)"
| "ref_transpose_graph_loop self (from_airport # ks) transposed s =
     (case ref_getitem self s from_airport of
        (a, self1, s1) \<Rightarrow>
          (case fold (\<lambda>to_airport (t, s). ref_add_edge t s to_airport from_airport)
                  (contents s1 a) (transposed, s1) of
             (transposed1, s2) \<Rightarrow> ref_transpose_graph_loop self1 ks transposed1 s2))"

text \<open>The result: \<open>self.graph\<close> after the call, the new graph's dictionary, and the store.\<close>

definition ref_transpose_graph :: "refdict \<Rightarrow> store \<Rightarrow> refdict \<times> refdict \<times> store" where
  "ref_transpose_graph self s = ref_transpose_graph_loop self (map fst self) [] s"

text \<open>Reading a dictionary of references: one key, and the whole dictionary as a value.\<close>

definition ref_adj :: "refdict \<Rightarrow> store \<Rightarrow> int \<Rightarrow> int list" where
  "ref_adj d s k = (case map_of d k of None \<Rightarrow> [] | Some a \<Rightarrow> contents s a)"

definition deref :: "refdict \<Rightarrow> store \<Rightarrow> adjacency" where
  "deref d s = map (\<lambda>(k, a). (k, contents s a)) d"

section \<open>Graphs on \<open>[0, N)\<close>, reachability, and what the specification counts\<close>

text \<open>
  The data model of the specification: every key and every neighbour of the adjacency
  list is a vertex id in \<open>[0, N)\<close>, \<open>N\<close> being \<open>self.vertices\<close>, and the dictionary has each
  key once. \<open>Graph_init\<close> gives such a graph and \<open>add_edge\<close> keeps it one when both ends are
  in \<open>[0, N)\<close>.
\<close>

definition in_range :: "nat \<Rightarrow> int \<Rightarrow> bool" where
  "in_range N i \<longleftrightarrow> 0 \<le> i \<and> i < int N"

definition adjacency_ok :: "nat \<Rightarrow> adjacency \<Rightarrow> bool" where
  "adjacency_ok N g \<longleftrightarrow> (\<forall>(k, ns) \<in> set g. in_range N k \<and> (\<forall>n \<in> set ns. in_range N n))"

definition graph_ok :: "Graph \<Rightarrow> bool" where
  "graph_ok G \<longleftrightarrow> distinct (keys (graph G)) \<and> adjacency_ok (vertices G) (graph G)"

text \<open>The same for a dictionary of references: each key once, every address in the store.\<close>

definition store_ok :: "refdict \<Rightarrow> store \<Rightarrow> bool" where
  "store_ok d s \<longleftrightarrow> distinct (map fst d) \<and> (\<forall>(k, a) \<in> set d. a < length s)"

text \<open>The edges of an adjacency function, and reachability along the edges of a graph.\<close>

definition edges :: "('a \<Rightarrow> 'a list) \<Rightarrow> ('a \<times> 'a) set" where
  "edges nb = {(a, b). b \<in> set (nb a)}"

definition reaches :: "Graph \<Rightarrow> int \<Rightarrow> int \<Rightarrow> bool" where
  "reaches G u v \<longleftrightarrow> (u, v) \<in> (edges (adj (graph G)))\<^sup>*"

text \<open>
  The count as the specification words it: over every component index below the number
  of components, not only below the number of keys of the condensed graph.
\<close>

definition spec_routes_needed :: "nat \<Rightarrow> compressed \<Rightarrow> nat \<Rightarrow> nat" where
  "spec_routes_needed num_components cg start_scc =
     length (filter (\<lambda>c. c \<noteq> start_scc \<and> in_degree_of cg c = 0) [0..<num_components])"

text \<open>A small graph for concrete instances: A and B on a cycle, and a route from B to C.\<close>

definition two_cycle_graph :: Graph where
  "two_cycle_graph =
     add_edge (add_edge (add_edge (Graph_init [(''A'', 0), (''B'', 1), (''C'', 2)]) 0 1) 1 0) 1 2"

section \<open>Notions used in the proofs\<close>

subsection \<open>The traversal as a relation on sets\<close>

text \<open>
  A big-step description of the recursive traversal over an adjacency function \<open>nb\<close>:
  from the set \<open>V\<close> of marked vertices, the call on \<open>v\<close> discovers the vertices \<open>pre\<close>
  (in the order they are marked) and finishes them in the order \<open>post\<close>. Both
  \<open>depth_first_search\<close> and \<open>depth_first_search_transposed\<close> are shown below to compute
  what this relation describes; the graph-theoretic facts are proved about the relation.
\<close>

inductive dfs_rel :: "('a \<Rightarrow> 'a list) \<Rightarrow> 'a \<Rightarrow> 'a set \<Rightarrow> 'a list \<Rightarrow> 'a list \<Rightarrow> bool"
  and dfs_loop_rel :: "('a \<Rightarrow> 'a list) \<Rightarrow> 'a list \<Rightarrow> 'a set \<Rightarrow> 'a list \<Rightarrow> 'a list \<Rightarrow> bool"
  for nb :: "'a \<Rightarrow> 'a list"
where
  visit: "v \<notin> V \<Longrightarrow> dfs_loop_rel nb (nb v) (insert v V) pre post \<Longrightarrow>
          dfs_rel nb v V (v # pre) (post @ [v])"
| finish: "dfs_loop_rel nb [] V [] []"
| skip: "n \<in> V \<Longrightarrow> dfs_loop_rel nb ns V pre post \<Longrightarrow> dfs_loop_rel nb (n # ns) V pre post"
| descend: "n \<notin> V \<Longrightarrow> dfs_rel nb n V pre1 post1 \<Longrightarrow>
            dfs_loop_rel nb ns (V \<union> set post1) pre2 post2 \<Longrightarrow>
            dfs_loop_rel nb (n # ns) V (pre1 @ pre2) (post1 @ post2)"

text \<open>The edges between vertices outside \<open>V\<close>, and a set that edges leave only into \<open>V\<close>.\<close>

definition avoiding :: "('a \<Rightarrow> 'a list) \<Rightarrow> 'a set \<Rightarrow> ('a \<times> 'a) set" where
  "avoiding nb V = {(a, b). b \<in> set (nb a) \<and> a \<notin> V \<and> b \<notin> V}"

definition closed_beyond :: "('a \<Rightarrow> 'a list) \<Rightarrow> 'a set \<Rightarrow> 'a set \<Rightarrow> bool" where
  "closed_beyond nb V S \<longleftrightarrow> (\<forall>x \<in> S. set (nb x) \<subseteq> V \<union> S)"

text \<open>
  \<open>from_on y xs\<close>: \<open>y\<close> and what follows its first occurrence in \<open>xs\<close>. A finish order is
  \<open>ordered_post\<close> when whatever a vertex reaches is finished no later than some vertex
  of the vertex's own strongly connected component.
\<close>

definition from_on :: "'a \<Rightarrow> 'a list \<Rightarrow> 'a set" where
  "from_on y xs = set (dropWhile (\<lambda>a. a \<noteq> y) xs)"

definition ordered_post :: "('a \<Rightarrow> 'a list) \<Rightarrow> 'a set \<Rightarrow> 'a list \<Rightarrow> bool" where
  "ordered_post nb V post \<longleftrightarrow>
     (\<forall>x \<in> set post. \<forall>y. (x, y) \<in> (avoiding nb V)\<^sup>* \<longrightarrow>
        (\<exists>z. (x, z) \<in> (avoiding nb V)\<^sup>* \<and> (z, x) \<in> (avoiding nb V)\<^sup>* \<and> z \<in> from_on y post))"

text \<open>
  Two adjacency functions that differ at most by one more occurrence of a neighbour
  after an earlier occurrence of it.
\<close>

definition same_first_visits :: "('a \<Rightarrow> 'a list) \<Rightarrow> ('a \<Rightarrow> 'a list) \<Rightarrow> bool" where
  "same_first_visits nb nb' \<longleftrightarrow>
     (\<forall>w. nb' w = nb w \<or> (\<exists>xs n ys. nb w = xs @ ys \<and> nb' w = xs @ n # ys \<and> n \<in> set xs))"

subsection \<open>The state of the functions\<close>

text \<open>
  The set of vertices that \<open>visited\<close> marks; the dictionary after the keys \<open>ks\<close> were
  created in it (\<open>extend\<close> for keys without repetition, \<open>touched\<close> for any sequence of
  reads); and the adjacency of the transposed graph, in the order \<open>_transpose_graph\<close>
  fills it.
\<close>

definition marked :: "bool list \<Rightarrow> int set" where
  "marked visited = {i. in_range (length visited) i \<and> visited ! nat i}"

definition extend :: "('k, 'v) defaultdict \<Rightarrow> 'k list \<Rightarrow> ('k, 'v) defaultdict" where
  "extend g ks = g @ map (\<lambda>k. (k, [])) (filter (\<lambda>k. k \<notin> set (keys g)) ks)"

definition touched :: "('k, 'v) defaultdict \<Rightarrow> 'k list \<Rightarrow> ('k, 'v) defaultdict" where
  "touched g ks = fold (\<lambda>k g. snd (dd_get g k)) ks g"

definition sources :: "adjacency \<Rightarrow> int \<Rightarrow> int list" where
  "sources g w = concat (map (\<lambda>k. map (\<lambda>_. k) (filter (\<lambda>t. t = w) (adj g k))) (keys g))"

text \<open>
  \<open>made_since s0 d s\<close>: the store \<open>s\<close> extends \<open>s0\<close> without changing any object of \<open>s0\<close>,
  and every list of the dictionary \<open>d\<close> was made after \<open>s0\<close>, no two keys sharing one.
\<close>

definition made_since :: "store \<Rightarrow> refdict \<Rightarrow> store \<Rightarrow> bool" where
  "made_since s0 d s \<longleftrightarrow>
     take (length s0) s = s0 \<and> (\<forall>(k, a) \<in> set d. length s0 \<le> a \<and> a < length s) \<and>
     distinct (map fst d) \<and> distinct (map snd d)"

subsection \<open>Components\<close>

text \<open>
  The strongly connected component of a vertex; a set that contains every predecessor
  of its members; and the invariant of the second pass: the components found so far are
  disjoint, each is the strongly connected component of its members, and every initial
  segment of them is closed under predecessors.
\<close>

definition scc_of :: "('a \<Rightarrow> 'a list) \<Rightarrow> 'a \<Rightarrow> 'a set" where
  "scc_of nb x = {y. (x, y) \<in> (edges nb)\<^sup>* \<and> (y, x) \<in> (edges nb)\<^sup>*}"

definition pred_closed :: "('a \<Rightarrow> 'a list) \<Rightarrow> 'a set \<Rightarrow> bool" where
  "pred_closed nb W \<longleftrightarrow> (\<forall>z y. (z, y) \<in> edges nb \<longrightarrow> y \<in> W \<longrightarrow> z \<in> W)"

definition components_ok :: "('a \<Rightarrow> 'a list) \<Rightarrow> 'a list list \<Rightarrow> bool" where
  "components_ok nb sccs \<longleftrightarrow>
     distinct (concat sccs) \<and>
     (\<forall>c \<in> set sccs. c \<noteq> [] \<and> (\<forall>u \<in> set c. set c = scc_of nb u)) \<and>
     (\<forall>k \<le> length sccs. pred_closed nb (\<Union> (set ` set (take k sccs))))"

text \<open>A condensed graph all of whose recorded edges satisfy \<open>P\<close>.\<close>

definition compressed_sound :: "(nat \<Rightarrow> nat \<Rightarrow> bool) \<Rightarrow> compressed \<Rightarrow> bool" where
  "compressed_sound P cg \<longleftrightarrow> (\<forall>i j. j \<in> set (adj cg i) \<longrightarrow> P i j)"

section \<open>Facts about the traversal relation\<close>

lemma avoiding_empty: "avoiding nb {} = edges nb"
  by (simp add: avoiding_def edges_def)

lemma avoiding_mono: "V \<subseteq> V' \<Longrightarrow> avoiding nb V' \<subseteq> avoiding nb V"
  by (auto simp: avoiding_def)

lemma avoiding_rtrancl_mono: "V \<subseteq> V' \<Longrightarrow> (x, y) \<in> (avoiding nb V')\<^sup>* \<Longrightarrow> (x, y) \<in> (avoiding nb V)\<^sup>*"
  using rtrancl_mono [OF avoiding_mono] by blast

lemma dfs_rel_basic:
  "dfs_rel nb v V pre post \<Longrightarrow>
     set pre = set post \<and> distinct pre \<and> distinct post \<and> set post \<inter> V = {} \<and> v \<in> set post"
  "dfs_loop_rel nb ns V pre post \<Longrightarrow>
     set pre = set post \<and> distinct pre \<and> distinct post \<and> set post \<inter> V = {} \<and> set ns \<subseteq> V \<union> set post"
proof (induction rule: dfs_rel_dfs_loop_rel.inducts)
  case (visit v V pre post)
  then show ?case by auto
next
  case (finish V)
  then show ?case by simp
next
  case (skip n V ns pre post)
  then show ?case by auto
next
  case (descend n V pre1 post1 ns pre2 post2)
  then show ?case by auto
qed

lemma dfs_rel_closed:
  "dfs_rel nb v V pre post \<Longrightarrow> \<forall>x \<in> set post. set (nb x) \<subseteq> V \<union> set post"
  "dfs_loop_rel nb ns V pre post \<Longrightarrow> \<forall>x \<in> set post. set (nb x) \<subseteq> V \<union> set post"
proof (induction rule: dfs_rel_dfs_loop_rel.inducts)
  case (visit v V pre post)
  from visit have "dfs_loop_rel nb (nb v) (insert v V) pre post" by simp
  from dfs_rel_basic(2) [OF this] have "set (nb v) \<subseteq> insert v V \<union> set post" by simp
  with visit show ?case by auto
next
  case (finish V)
  then show ?case by simp
next
  case (skip n V ns pre post)
  then show ?case by simp
next
  case (descend n V pre1 post1 ns pre2 post2)
  then show ?case by auto
qed

lemma dfs_rel_reach:
  "dfs_rel nb v V pre post \<Longrightarrow> \<forall>x \<in> set post. (v, x) \<in> (avoiding nb V)\<^sup>*"
  "dfs_loop_rel nb ns V pre post \<Longrightarrow>
     \<forall>x \<in> set post. \<exists>n \<in> set ns. n \<notin> V \<and> (n, x) \<in> (avoiding nb V)\<^sup>*"
proof (induction rule: dfs_rel_dfs_loop_rel.inducts)
  case (visit v V pre post)
  show ?case
  proof
    fix x assume "x \<in> set (post @ [v])"
    then consider "x = v" | "x \<in> set post" by auto
    then show "(v, x) \<in> (avoiding nb V)\<^sup>*"
    proof cases
      case 1
      then show ?thesis by simp
    next
      case 2
      with visit obtain n where n: "n \<in> set (nb v)" "n \<notin> insert v V"
        "(n, x) \<in> (avoiding nb (insert v V))\<^sup>*" by blast
      from n visit have "(v, n) \<in> avoiding nb V" by (simp add: avoiding_def)
      moreover from n(3) have "(n, x) \<in> (avoiding nb V)\<^sup>*"
        by (rule avoiding_rtrancl_mono [rotated]) auto
      ultimately show ?thesis by (rule converse_rtrancl_into_rtrancl)
    qed
  qed
next
  case (finish V)
  then show ?case by simp
next
  case (skip n V ns pre post)
  then show ?case by auto
next
  case (descend n V pre1 post1 ns pre2 post2)
  show ?case
  proof
    fix x assume "x \<in> set (post1 @ post2)"
    then consider "x \<in> set post1" | "x \<in> set post2" by auto
    then show "\<exists>m \<in> set (n # ns). m \<notin> V \<and> (m, x) \<in> (avoiding nb V)\<^sup>*"
    proof cases
      case 1
      with descend show ?thesis by auto
    next
      case 2
      with descend obtain m where m: "m \<in> set ns" "m \<notin> V \<union> set post1"
        "(m, x) \<in> (avoiding nb (V \<union> set post1))\<^sup>*" by blast
      from m(3) have "(m, x) \<in> (avoiding nb V)\<^sup>*"
        by (rule avoiding_rtrancl_mono [rotated]) auto
      with m show ?thesis by auto
    qed
  qed
qed

lemma closed_beyond_stays:
  assumes "closed_beyond nb V S" and "(x, y) \<in> (avoiding nb V)\<^sup>*" and "x \<in> S"
  shows "y \<in> S"
  using assms(2,3)
proof (induction rule: rtrancl_induct)
  case base
  then show ?case by simp
next
  case (step y z)
  with assms(1) show ?case by (auto simp: closed_beyond_def avoiding_def)
qed

lemma avoid_more_closed:
  assumes "closed_beyond nb V S" and "(x, y) \<in> (avoiding nb V)\<^sup>*" and "y \<notin> S"
  shows "(x, y) \<in> (avoiding nb (V \<union> S))\<^sup>*"
  using assms(2,3)
proof (induction rule: rtrancl_induct)
  case base
  then show ?case by simp
next
  case (step y z)
  from step.hyps(2) step.prems assms(1) have "y \<notin> S"
    by (auto simp: closed_beyond_def avoiding_def)
  with step.IH have "(x, y) \<in> (avoiding nb (V \<union> S))\<^sup>*" by simp
  moreover from step.hyps(2) step.prems \<open>y \<notin> S\<close> have "(y, z) \<in> avoiding nb (V \<union> S)"
    by (simp add: avoiding_def)
  ultimately show ?case by (rule rtrancl_into_rtrancl)
qed

lemma avoid_more_unreached:
  assumes "(x, y) \<in> (avoiding nb V)\<^sup>*" and "(x, v) \<notin> (avoiding nb V)\<^sup>*"
  shows "(x, y) \<in> (avoiding nb (insert v V))\<^sup>*"
  using assms
proof (induction rule: rtrancl_induct)
  case base
  then show ?case by simp
next
  case (step y z)
  then have "(x, y) \<in> (avoiding nb (insert v V))\<^sup>*" by simp
  moreover from step have "y \<noteq> v" "z \<noteq> v" by (auto intro: rtrancl_into_rtrancl)
  with step.hyps(2) have "(y, z) \<in> avoiding nb (insert v V)" by (simp add: avoiding_def)
  ultimately show ?case by (rule rtrancl_into_rtrancl)
qed

lemma from_on_append_subset: "from_on y xs \<subseteq> from_on y (xs @ ys)"
  by (induction xs) (auto simp: from_on_def)

lemma from_on_append_in: "y \<in> set xs \<Longrightarrow> from_on y (xs @ ys) = from_on y xs \<union> set ys"
  by (induction xs) (auto simp: from_on_def)

lemma from_on_append_notin: "y \<notin> set xs \<Longrightarrow> from_on y (xs @ ys) = from_on y ys"
  by (induction xs) (auto simp: from_on_def)

lemma from_on_subset: "from_on y xs \<subseteq> set xs"
  by (induction xs) (auto simp: from_on_def)

lemma dfs_rel_ordered:
  "dfs_rel nb v V pre post \<Longrightarrow> ordered_post nb V post"
  "dfs_loop_rel nb ns V pre post \<Longrightarrow> ordered_post nb V post"
proof (induction rule: dfs_rel_dfs_loop_rel.inducts)
  case (visit v V pre post)
  have rel: "dfs_rel nb v V (v # pre) (post @ [v])"
    using visit by (auto intro: dfs_rel_dfs_loop_rel.visit)
  have IH: "ordered_post nb (insert v V) post" using visit by simp
  have closed: "closed_beyond nb V (set (post @ [v]))"
    using dfs_rel_closed(1) [OF rel] by (simp add: closed_beyond_def)
  show ?case
    unfolding ordered_post_def
  proof (intro ballI allI impI)
    fix x y
    assume x: "x \<in> set (post @ [v])" and xy: "(x, y) \<in> (avoiding nb V)\<^sup>*"
    have y: "y \<in> set (post @ [v])" using closed xy x by (rule closed_beyond_stays)
    show "\<exists>z. (x, z) \<in> (avoiding nb V)\<^sup>* \<and> (z, x) \<in> (avoiding nb V)\<^sup>* \<and> z \<in> from_on y (post @ [v])"
    proof (cases "(x, v) \<in> (avoiding nb V)\<^sup>*")
      case True
      moreover have "(v, x) \<in> (avoiding nb V)\<^sup>*" using dfs_rel_reach(1) [OF rel] x by blast
      moreover have "v \<in> from_on y (post @ [v])"
      proof (cases "y \<in> set post")
        case True
        then show ?thesis by (simp add: from_on_append_in)
      next
        case False
        with y have "y = v" by simp
        with False show ?thesis by (simp add: from_on_append_notin) (simp add: from_on_def)
      qed
      ultimately show ?thesis by blast
    next
      case False
      then have "x \<noteq> v" by auto
      with x have x': "x \<in> set post" by simp
      from xy False have "(x, y) \<in> (avoiding nb (insert v V))\<^sup>*" by (rule avoid_more_unreached)
      with IH x' obtain z where z: "(x, z) \<in> (avoiding nb (insert v V))\<^sup>*"
        "(z, x) \<in> (avoiding nb (insert v V))\<^sup>*" "z \<in> from_on y post"
        unfolding ordered_post_def by blast
      have "(x, z) \<in> (avoiding nb V)\<^sup>*" "(z, x) \<in> (avoiding nb V)\<^sup>*"
        using z(1,2) by (auto intro: avoiding_rtrancl_mono [rotated])
      with z(3) from_on_append_subset [of y post "[v]"] show ?thesis by blast
    qed
  qed
next
  case (finish V)
  then show ?case by (simp add: ordered_post_def)
next
  case (skip n V ns pre post)
  then show ?case by simp
next
  case (descend n V pre1 post1 ns pre2 post2)
  have rel1: "dfs_rel nb n V pre1 post1" and rel2: "dfs_loop_rel nb ns (V \<union> set post1) pre2 post2"
    and IH1: "ordered_post nb V post1" and IH2: "ordered_post nb (V \<union> set post1) post2"
    using descend by simp_all
  have closed1: "closed_beyond nb V (set post1)"
    using dfs_rel_closed(1) [OF rel1] by (simp add: closed_beyond_def)
  have disj: "set post2 \<inter> set post1 = {}"
    using dfs_rel_basic(2) [OF rel2] by auto
  show ?case
    unfolding ordered_post_def
  proof (intro ballI allI impI)
    fix x y
    assume x: "x \<in> set (post1 @ post2)" and xy: "(x, y) \<in> (avoiding nb V)\<^sup>*"
    show "\<exists>z. (x, z) \<in> (avoiding nb V)\<^sup>* \<and> (z, x) \<in> (avoiding nb V)\<^sup>* \<and> z \<in> from_on y (post1 @ post2)"
    proof (cases "x \<in> set post1")
      case True
      with IH1 xy obtain z where "(x, z) \<in> (avoiding nb V)\<^sup>*"
        "(z, x) \<in> (avoiding nb V)\<^sup>*" "z \<in> from_on y post1"
        unfolding ordered_post_def by blast
      with from_on_append_subset [of y post1 post2] show ?thesis by blast
    next
      case False
      with x have x2: "x \<in> set post2" by simp
      show ?thesis
      proof (cases "y \<in> set post1")
        case True
        with x2 have "x \<in> from_on y (post1 @ post2)" by (simp add: from_on_append_in)
        then show ?thesis by blast
      next
        case False
        with closed1 xy have "(x, y) \<in> (avoiding nb (V \<union> set post1))\<^sup>*"
          by (rule avoid_more_closed)
        with IH2 x2 obtain z where z: "(x, z) \<in> (avoiding nb (V \<union> set post1))\<^sup>*"
          "(z, x) \<in> (avoiding nb (V \<union> set post1))\<^sup>*" "z \<in> from_on y post2"
          unfolding ordered_post_def by blast
        have "(x, z) \<in> (avoiding nb V)\<^sup>*" "(z, x) \<in> (avoiding nb V)\<^sup>*"
          using z(1,2) by (auto intro: avoiding_rtrancl_mono [rotated])
        with z(3) False show ?thesis by (auto simp: from_on_append_notin)
      qed
    qed
  qed
qed

section \<open>The functions compute the relation\<close>

subsection \<open>Lists, marks and created keys\<close>

lemma list_get_in_range: "in_range (length xs) i \<Longrightarrow> list_get xs i = Inr (xs ! nat i)"
  by (simp add: list_get_def py_index_def in_range_def)

lemma list_set_in_range: "in_range (length xs) i \<Longrightarrow> list_set xs i v = Inr (xs[nat i := v])"
  by (simp add: list_set_def py_index_def in_range_def)

lemma marked_update:
  "in_range (length vis) i \<Longrightarrow> marked (vis[nat i := True]) = insert i (marked vis)"
  by (auto simp: marked_def in_range_def nth_list_update)

lemma marked_in_range: "i \<in> marked vis \<Longrightarrow> in_range (length vis) i"
  by (simp add: marked_def)

lemma marked_replicate: "marked (replicate N False) = {}"
  by (auto simp: marked_def in_range_def)

lemma map_of_empties: "map_of (map (\<lambda>k. (k, [])) ks) k = (if k \<in> set ks then Some [] else None)"
  by (induction ks) auto

lemma adj_extend: "adj (extend g ks) = adj g"
  by (rule ext) (auto simp: adj_def extend_def map_add_def map_of_empties split: option.splits)

lemma keys_extend: "set (keys (extend g ks)) = set (keys g) \<union> set ks"
  by (auto simp: keys_def extend_def)

lemma extend_Nil: "extend g [] = g"
  by (simp add: extend_def)

lemma extend_extend:
  "set ks1 \<inter> set ks2 = {} \<Longrightarrow> extend (extend g ks1) ks2 = extend g (ks1 @ ks2)"
proof -
  assume disj: "set ks1 \<inter> set ks2 = {}"
  have "filter (\<lambda>k. k \<notin> set (keys (extend g ks1))) ks2 = filter (\<lambda>k. k \<notin> set (keys g)) ks2"
    using disj by (intro filter_cong) (auto simp: keys_extend)
  then show ?thesis by (simp add: extend_def)
qed

lemma dd_get_extend: "dd_get g k = (adj g k, extend g [k])"
  by (auto simp: dd_get_def adj_def extend_def keys_def map_of_eq_None_iff
      split: option.splits dest: map_of_SomeD intro: rev_image_eqI)

lemma adjacency_ok_extend:
  "adjacency_ok N g \<Longrightarrow> \<forall>k \<in> set ks. in_range N k \<Longrightarrow> adjacency_ok N (extend g ks)"
  by (auto simp: adjacency_ok_def extend_def)

lemma adjacency_ok_adj: "adjacency_ok N g \<Longrightarrow> n \<in> set (adj g k) \<Longrightarrow> in_range N n"
proof -
  assume ok: "adjacency_ok N g" and n: "n \<in> set (adj g k)"
  then obtain ns where "map_of g k = Some ns" "n \<in> set ns"
    by (cases "map_of g k") (auto simp: adj_def)
  then have "(k, ns) \<in> set g" by (auto dest: map_of_SomeD)
  with ok \<open>n \<in> set ns\<close> show ?thesis by (auto simp: adjacency_ok_def)
qed

subsection \<open>The two traversals\<close>

lemma depth_first_search_rel:
  "adjacency_ok N g \<Longrightarrow> length vis = N \<Longrightarrow> in_range N v \<Longrightarrow> v \<notin> marked vis \<Longrightarrow>
     \<exists>vis' pre post. depth_first_search g v vis st = Inr (extend g pre, vis', st @ post) \<and>
        length vis' = N \<and> marked vis' = marked vis \<union> set post \<and>
        dfs_rel (adj g) v (marked vis) pre post"
  "adjacency_ok N g \<Longrightarrow> length vis = N \<Longrightarrow> \<forall>n \<in> set ns. in_range N n \<Longrightarrow>
     \<exists>vis' pre post. depth_first_search_loop g ns vis st = Inr (extend g pre, vis', st @ post) \<and>
        length vis' = N \<and> marked vis' = marked vis \<union> set post \<and>
        dfs_loop_rel (adj g) ns (marked vis) pre post"
proof (induction g v vis st and g ns vis st rule: depth_first_search_depth_first_search_loop.induct)
  case (1 g vertex visited stack)
  let ?vis1 = "visited[nat vertex := True]"
  have rng: "in_range (length visited) vertex" using "1.prems" by simp
  have set1: "list_set visited vertex True = Inr ?vis1"
    using rng by (rule list_set_in_range)
  have ok1: "adjacency_ok N (extend g [vertex])"
    using "1.prems" by (auto intro: adjacency_ok_extend)
  have nbs: "\<forall>n \<in> set (adj g vertex). in_range N n"
    using "1.prems"(1) by (auto dest: adjacency_ok_adj)
  from "1.IH" [OF set1 dd_get_extend [symmetric] ok1 _ nbs] "1.prems"(2)
  obtain vis' pre post where
    run: "depth_first_search_loop (extend g [vertex]) (adj g vertex) ?vis1 stack
          = Inr (extend (extend g [vertex]) pre, vis', stack @ post)"
    and len: "length vis' = N" and mk: "marked vis' = marked ?vis1 \<union> set post"
    and rel: "dfs_loop_rel (adj (extend g [vertex])) (adj g vertex) (marked ?vis1) pre post"
    by auto
  have m1: "marked ?vis1 = insert vertex (marked visited)" using rng by (rule marked_update)
  from rel have rel': "dfs_loop_rel (adj g) (adj g vertex) (insert vertex (marked visited)) pre post"
    by (simp add: adj_extend m1)
  from dfs_rel_basic(2) [OF rel'] have fresh: "vertex \<notin> set pre" by auto
  then have ext: "extend (extend g [vertex]) pre = extend g (vertex # pre)"
    using extend_extend [of "[vertex]" pre g] by simp
  have "dfs_rel (adj g) vertex (marked visited) (vertex # pre) (post @ [vertex])"
    using "1.prems"(4) rel' by (rule visit)
  moreover have "depth_first_search g vertex visited stack
      = Inr (extend g (vertex # pre), vis', stack @ (post @ [vertex]))"
    using set1 run ext by (simp add: dd_get_extend)
  moreover have "marked vis' = marked visited \<union> set (post @ [vertex])"
    using mk m1 by auto
  ultimately show ?case using len by blast
next
  case (2 g visited stack)
  have "depth_first_search_loop g [] visited stack = Inr (extend g [], visited, stack @ [])"
    by (simp add: extend_Nil)
  moreover have "dfs_loop_rel (adj g) [] (marked visited) [] []" by (rule finish)
  ultimately show ?case using "2.prems" by (metis Un_empty_right list.set(1))
next
  case (3 g neighbor ns visited stack)
  have rng: "in_range (length visited) neighbor" using "3.prems" by simp
  have get: "list_get visited neighbor = Inr (visited ! nat neighbor)"
    using rng by (rule list_get_in_range)
  have rest: "\<forall>n \<in> set ns. in_range N n" using "3.prems" by simp
  show ?case
  proof (cases "visited ! nat neighbor")
    case True
    then have seen: "neighbor \<in> marked visited" using rng by (simp add: marked_def)
    from "3.IH"(3) [OF get _ "3.prems"(1,2) rest] True
    obtain vis' pre post where
      run: "depth_first_search_loop g ns visited stack = Inr (extend g pre, vis', stack @ post)"
      and len: "length vis' = N" and mk: "marked vis' = marked visited \<union> set post"
      and rel: "dfs_loop_rel (adj g) ns (marked visited) pre post"
      by auto
    have "dfs_loop_rel (adj g) (neighbor # ns) (marked visited) pre post"
      using seen rel by (rule skip)
    moreover have "depth_first_search_loop g (neighbor # ns) visited stack
        = Inr (extend g pre, vis', stack @ post)"
      using get True run by simp
    ultimately show ?thesis using len mk by blast
  next
    case False
    then have unseen: "neighbor \<notin> marked visited" by (simp add: marked_def)
    have rngN: "in_range N neighbor" using "3.prems" by simp
    from "3.IH"(1) [OF get False "3.prems"(1,2) rngN unseen]
    obtain vis1 pre1 post1 where
      run1: "depth_first_search g neighbor visited stack = Inr (extend g pre1, vis1, stack @ post1)"
      and len1: "length vis1 = N" and mk1: "marked vis1 = marked visited \<union> set post1"
      and rel1: "dfs_rel (adj g) neighbor (marked visited) pre1 post1"
      by auto
    have "set pre1 = set post1" using dfs_rel_basic(1) [OF rel1] by simp
    then have "\<forall>k \<in> set pre1. in_range N k"
      using mk1 len1 marked_in_range [of _ vis1] by auto
    with "3.prems"(1) have ok1: "adjacency_ok N (extend g pre1)" by (rule adjacency_ok_extend)
    from "3.IH"(2) [OF get False run1 refl refl ok1 len1 rest]
    obtain vis2 pre2 post2 where
      run2: "depth_first_search_loop (extend g pre1) ns vis1 (stack @ post1)
             = Inr (extend (extend g pre1) pre2, vis2, (stack @ post1) @ post2)"
      and len2: "length vis2 = N" and mk2: "marked vis2 = marked vis1 \<union> set post2"
      and rel2: "dfs_loop_rel (adj (extend g pre1)) ns (marked vis1) pre2 post2"
      by auto
    from rel2 have rel2': "dfs_loop_rel (adj g) ns (marked visited \<union> set post1) pre2 post2"
      by (simp add: adj_extend mk1)
    from dfs_rel_basic(2) [OF rel2'] \<open>set pre1 = set post1\<close>
    have "set pre1 \<inter> set pre2 = {}" by auto
    then have ext: "extend (extend g pre1) pre2 = extend g (pre1 @ pre2)"
      by (rule extend_extend)
    have "dfs_loop_rel (adj g) (neighbor # ns) (marked visited) (pre1 @ pre2) (post1 @ post2)"
      using unseen rel1 rel2' by (rule descend)
    moreover have "depth_first_search_loop g (neighbor # ns) visited stack
        = Inr (extend g (pre1 @ pre2), vis2, stack @ (post1 @ post2))"
      using get False run1 run2 ext by simp
    moreover have "marked vis2 = marked visited \<union> set (post1 @ post2)"
      using mk1 mk2 by auto
    ultimately show ?thesis using len2 by blast
  qed
qed

lemma depth_first_search_transposed_rel:
  "adjacency_ok N g \<Longrightarrow> length vis = N \<Longrightarrow> in_range N v \<Longrightarrow> v \<notin> marked vis \<Longrightarrow>
     \<exists>vis' pre post. depth_first_search_transposed g v vis cs = Inr (extend g pre, vis', cs @ pre) \<and>
        length vis' = N \<and> marked vis' = marked vis \<union> set post \<and>
        dfs_rel (adj g) v (marked vis) pre post"
  "adjacency_ok N g \<Longrightarrow> length vis = N \<Longrightarrow> \<forall>n \<in> set ns. in_range N n \<Longrightarrow>
     \<exists>vis' pre post. depth_first_search_transposed_loop g ns vis cs = Inr (extend g pre, vis', cs @ pre) \<and>
        length vis' = N \<and> marked vis' = marked vis \<union> set post \<and>
        dfs_loop_rel (adj g) ns (marked vis) pre post"
proof (induction g v vis cs and g ns vis cs
    rule: depth_first_search_transposed_depth_first_search_transposed_loop.induct)
  case (1 g vertex visited component)
  let ?vis1 = "visited[nat vertex := True]"
  have rng: "in_range (length visited) vertex" using "1.prems" by simp
  have set1: "list_set visited vertex True = Inr ?vis1"
    using rng by (rule list_set_in_range)
  have ok1: "adjacency_ok N (extend g [vertex])"
    using "1.prems" by (auto intro: adjacency_ok_extend)
  have nbs: "\<forall>n \<in> set (adj g vertex). in_range N n"
    using "1.prems"(1) by (auto dest: adjacency_ok_adj)
  from "1.IH" [OF set1 dd_get_extend [symmetric] ok1 _ nbs] "1.prems"(2)
  obtain vis' pre post where
    run: "depth_first_search_transposed_loop (extend g [vertex]) (adj g vertex) ?vis1
            (component @ [vertex])
          = Inr (extend (extend g [vertex]) pre, vis', (component @ [vertex]) @ pre)"
    and len: "length vis' = N" and mk: "marked vis' = marked ?vis1 \<union> set post"
    and rel: "dfs_loop_rel (adj (extend g [vertex])) (adj g vertex) (marked ?vis1) pre post"
    by auto
  have m1: "marked ?vis1 = insert vertex (marked visited)" using rng by (rule marked_update)
  from rel have rel': "dfs_loop_rel (adj g) (adj g vertex) (insert vertex (marked visited)) pre post"
    by (simp add: adj_extend m1)
  from dfs_rel_basic(2) [OF rel'] have fresh: "vertex \<notin> set pre" by auto
  then have ext: "extend (extend g [vertex]) pre = extend g (vertex # pre)"
    using extend_extend [of "[vertex]" pre g] by simp
  have "dfs_rel (adj g) vertex (marked visited) (vertex # pre) (post @ [vertex])"
    using "1.prems"(4) rel' by (rule visit)
  moreover have "depth_first_search_transposed g vertex visited component
      = Inr (extend g (vertex # pre), vis', component @ (vertex # pre))"
    using set1 run ext by (simp add: dd_get_extend)
  moreover have "marked vis' = marked visited \<union> set (post @ [vertex])"
    using mk m1 by auto
  ultimately show ?case using len by blast
next
  case (2 g visited component)
  have "depth_first_search_transposed_loop g [] visited component
      = Inr (extend g [], visited, component @ [])"
    by (simp add: extend_Nil)
  moreover have "dfs_loop_rel (adj g) [] (marked visited) [] []" by (rule finish)
  ultimately show ?case using "2.prems" by (metis Un_empty_right list.set(1))
next
  case (3 g neighbor ns visited component)
  have rng: "in_range (length visited) neighbor" using "3.prems" by simp
  have get: "list_get visited neighbor = Inr (visited ! nat neighbor)"
    using rng by (rule list_get_in_range)
  have rest: "\<forall>n \<in> set ns. in_range N n" using "3.prems" by simp
  show ?case
  proof (cases "visited ! nat neighbor")
    case True
    then have seen: "neighbor \<in> marked visited" using rng by (simp add: marked_def)
    from "3.IH"(3) [OF get _ "3.prems"(1,2) rest] True
    obtain vis' pre post where
      run: "depth_first_search_transposed_loop g ns visited component
            = Inr (extend g pre, vis', component @ pre)"
      and len: "length vis' = N" and mk: "marked vis' = marked visited \<union> set post"
      and rel: "dfs_loop_rel (adj g) ns (marked visited) pre post"
      by auto
    have "dfs_loop_rel (adj g) (neighbor # ns) (marked visited) pre post"
      using seen rel by (rule skip)
    moreover have "depth_first_search_transposed_loop g (neighbor # ns) visited component
        = Inr (extend g pre, vis', component @ pre)"
      using get True run by simp
    ultimately show ?thesis using len mk by blast
  next
    case False
    then have unseen: "neighbor \<notin> marked visited" by (simp add: marked_def)
    have rngN: "in_range N neighbor" using "3.prems" by simp
    from "3.IH"(1) [OF get False "3.prems"(1,2) rngN unseen]
    obtain vis1 pre1 post1 where
      run1: "depth_first_search_transposed g neighbor visited component
             = Inr (extend g pre1, vis1, component @ pre1)"
      and len1: "length vis1 = N" and mk1: "marked vis1 = marked visited \<union> set post1"
      and rel1: "dfs_rel (adj g) neighbor (marked visited) pre1 post1"
      by auto
    have "set pre1 = set post1" using dfs_rel_basic(1) [OF rel1] by simp
    then have "\<forall>k \<in> set pre1. in_range N k"
      using mk1 len1 marked_in_range [of _ vis1] by auto
    with "3.prems"(1) have ok1: "adjacency_ok N (extend g pre1)" by (rule adjacency_ok_extend)
    from "3.IH"(2) [OF get False run1 refl refl ok1 len1 rest]
    obtain vis2 pre2 post2 where
      run2: "depth_first_search_transposed_loop (extend g pre1) ns vis1 (component @ pre1)
             = Inr (extend (extend g pre1) pre2, vis2, (component @ pre1) @ pre2)"
      and len2: "length vis2 = N" and mk2: "marked vis2 = marked vis1 \<union> set post2"
      and rel2: "dfs_loop_rel (adj (extend g pre1)) ns (marked vis1) pre2 post2"
      by auto
    from rel2 have rel2': "dfs_loop_rel (adj g) ns (marked visited \<union> set post1) pre2 post2"
      by (simp add: adj_extend mk1)
    from dfs_rel_basic(2) [OF rel2'] \<open>set pre1 = set post1\<close>
    have "set pre1 \<inter> set pre2 = {}" by auto
    then have ext: "extend (extend g pre1) pre2 = extend g (pre1 @ pre2)"
      by (rule extend_extend)
    have "dfs_loop_rel (adj g) (neighbor # ns) (marked visited) (pre1 @ pre2) (post1 @ post2)"
      using unseen rel1 rel2' by (rule descend)
    moreover have "depth_first_search_transposed_loop g (neighbor # ns) visited component
        = Inr (extend g (pre1 @ pre2), vis2, component @ (pre1 @ pre2))"
      using get False run1 run2 ext by simp
    moreover have "marked vis2 = marked visited \<union> set (post1 @ post2)"
      using mk1 mk2 by auto
    ultimately show ?thesis using len2 by blast
  qed
qed

lemma first_pass_loop: "first_pass g is vis st = depth_first_search_loop g is vis st"
  by (induction "is" arbitrary: g vis st) (auto split: sum.splits)

subsection \<open>\<open>add_edge\<close>\<close>

lemma update_append_empty:
  "k \<notin> fst ` set g \<Longrightarrow> AList.update k v (g @ [(k, [])]) = AList.update k v g"
  by (induction g) auto

lemma graph_add_edge:
  "graph (add_edge G a b) = AList.update a (adj (graph G) a @ [b]) (graph G)"
  by (cases "a \<in> set (keys (graph G))")
    (simp_all add: add_edge_def dd_get_extend extend_def update_append_empty keys_def)

lemma airports_add_edge: "airports (add_edge G a b) = airports G"
  by (simp add: add_edge_def split: prod.splits)

lemma vertices_add_edge: "vertices (add_edge G a b) = vertices G"
  by (simp add: add_edge_def split: prod.splits)

lemma adj_update: "adj (AList.update k v g) = (adj g)(k := v)"
  by (rule ext) (simp add: adj_def update_conv')

lemma keys_update: "keys (AList.update k v g) = (if k \<in> set (keys g) then keys g else keys g @ [k])"
  by (simp add: keys_def update_keys)

lemma set_update_subset: "set (AList.update k v g) \<subseteq> insert (k, v) (set g)"
  by (induction g) auto

lemma adjacency_ok_update:
  "adjacency_ok N g \<Longrightarrow> in_range N k \<Longrightarrow> \<forall>n \<in> set v. in_range N n \<Longrightarrow>
   adjacency_ok N (AList.update k v g)"
  using set_update_subset [of k v g] by (auto simp: adjacency_ok_def)

lemma adjacency_ok_add_edge:
  "adjacency_ok N (graph G) \<Longrightarrow> in_range N a \<Longrightarrow> in_range N b \<Longrightarrow>
   adjacency_ok N (graph (add_edge G a b))"
  by (auto simp: graph_add_edge intro!: adjacency_ok_update dest: adjacency_ok_adj)

lemma distinct_keys_add_edge:
  "distinct (keys (graph G)) \<Longrightarrow> distinct (keys (graph (add_edge G a b)))"
  by (simp add: graph_add_edge keys_update)

subsection \<open>Graphs built through the interface are well formed\<close>

lemma graph_ok_Graph_init: "graph_ok (Graph_init aps)"
  by (simp add: graph_ok_def Graph_init_def keys_def adjacency_ok_def)

lemma graph_ok_add_edge:
  "graph_ok G \<Longrightarrow> in_range (vertices G) a \<Longrightarrow> in_range (vertices G) b \<Longrightarrow>
   graph_ok (add_edge G a b)"
  by (simp add: graph_ok_def distinct_keys_add_edge adjacency_ok_add_edge vertices_add_edge)

lemma graph_ok_add_routes:
  "graph_ok G \<Longrightarrow> \<forall>(l, i) \<in> set (airports G). in_range (vertices G) i \<Longrightarrow>
   add_routes G routes = Inr G' \<Longrightarrow>
   graph_ok G' \<and> airports G' = airports G \<and> vertices G' = vertices G"
proof (induction routes arbitrary: G)
  case Nil
  then show ?case by simp
next
  case (Cons r routes)
  obtain f t where r: "r = (f, t)" by (cases r)
  with Cons.prems(3) obtain fi ti where ft: "map_of (airports G) f = Some fi"
    "map_of (airports G) t = Some ti" and rest: "add_routes (add_edge G fi ti) routes = Inr G'"
    by (auto split: option.splits)
  from ft have "(f, fi) \<in> set (airports G)" "(t, ti) \<in> set (airports G)"
    by (auto dest: map_of_SomeD)
  with Cons.prems(2) have rng: "in_range (vertices G) fi" "in_range (vertices G) ti" by auto
  with Cons.prems(1) have ok: "graph_ok (add_edge G fi ti)" by (simp add: graph_ok_add_edge)
  have labels: "\<forall>(l, i) \<in> set (airports (add_edge G fi ti)). in_range (vertices (add_edge G fi ti)) i"
    using Cons.prems(2) by (simp add: airports_add_edge vertices_add_edge)
  from Cons.IH [OF ok labels rest] show ?case
    by (simp add: airports_add_edge vertices_add_edge)
qed

subsection \<open>The transposed graph\<close>

lemma extend_keys: "set ks \<subseteq> set (keys g) \<Longrightarrow> extend g ks = g"
  by (auto simp: extend_def filter_empty_conv)

lemma adj_fold_add_edge:
  "adj (graph (fold (\<lambda>t T. add_edge T t k) ns T)) w
     = adj (graph T) w @ map (\<lambda>_. k) (filter (\<lambda>t. t = w) ns)"
  by (induction ns arbitrary: T) (simp_all add: graph_add_edge adj_update)

lemma transpose_graph_loop_eq:
  "set ks \<subseteq> set (keys g) \<Longrightarrow>
   transpose_graph_loop g ks T = (g, fold (\<lambda>k T. fold (\<lambda>t T. add_edge T t k) (adj g k) T) ks T)"
  by (induction ks arbitrary: T) (simp_all add: dd_get_extend extend_keys)

lemma adj_fold_fold_add_edge:
  "adj (graph (fold (\<lambda>k T. fold (\<lambda>t T. add_edge T t k) (adj g k) T) ks T)) w
     = adj (graph T) w @ concat (map (\<lambda>k. map (\<lambda>_. k) (filter (\<lambda>t. t = w) (adj g k))) ks)"
  by (induction ks arbitrary: T) (simp_all add: adj_fold_add_edge)

lemma adjacency_ok_fold_add_edge:
  "adjacency_ok N (graph T) \<Longrightarrow> in_range N k \<Longrightarrow> \<forall>t \<in> set ns. in_range N t \<Longrightarrow>
   adjacency_ok N (graph (fold (\<lambda>t T. add_edge T t k) ns T))"
  by (induction ns arbitrary: T) (simp_all add: adjacency_ok_add_edge)

lemma adjacency_ok_key: "adjacency_ok N g \<Longrightarrow> k \<in> set (keys g) \<Longrightarrow> in_range N k"
  by (auto simp: adjacency_ok_def keys_def)

lemma adjacency_ok_fold_fold_add_edge:
  "adjacency_ok N g \<Longrightarrow> adjacency_ok N (graph T) \<Longrightarrow> set ks \<subseteq> set (keys g) \<Longrightarrow>
   adjacency_ok N (graph (fold (\<lambda>k T. fold (\<lambda>t T. add_edge T t k) (adj g k) T) ks T))"
proof (induction ks arbitrary: T)
  case Nil
  then show ?case by simp
next
  case (Cons k ks)
  have "adjacency_ok N (graph (fold (\<lambda>t T. add_edge T t k) (adj g k) T))"
    using Cons.prems by (intro adjacency_ok_fold_add_edge) (auto dest: adjacency_ok_key adjacency_ok_adj)
  with Cons show ?case by simp
qed

lemma distinct_keys_fold_add_edge:
  "distinct (keys (graph T)) \<Longrightarrow> distinct (keys (graph (fold (\<lambda>t T. add_edge T t k) ns T)))"
  by (induction ns arbitrary: T) (simp_all add: distinct_keys_add_edge)

lemma distinct_keys_fold_fold_add_edge:
  "distinct (keys (graph T)) \<Longrightarrow>
   distinct (keys (graph (fold (\<lambda>k T. fold (\<lambda>t T. add_edge T t k) (adj g k) T) ks T)))"
  by (induction ks arbitrary: T) (simp_all add: distinct_keys_fold_add_edge)

lemma adj_Nil: "adj [] k = []"
  by (simp add: adj_def)

lemma transpose_graph_self: "fst (transpose_graph G) = G"
  by (simp add: transpose_graph_def transpose_graph_loop_eq)

lemma transpose_graph_adj: "adj (graph (snd (transpose_graph G))) w = sources (graph G) w"
  by (simp add: transpose_graph_def transpose_graph_loop_eq adj_fold_fold_add_edge
      Graph_init_def adj_Nil sources_def)

lemma transpose_graph_ok:
  "adjacency_ok N (graph G) \<Longrightarrow> adjacency_ok N (graph (snd (transpose_graph G)))"
  by (simp add: transpose_graph_def transpose_graph_loop_eq)
    (rule adjacency_ok_fold_fold_add_edge, simp_all add: Graph_init_def adjacency_ok_def)

lemma transpose_graph_distinct: "distinct (keys (graph (snd (transpose_graph G))))"
  by (simp add: transpose_graph_def transpose_graph_loop_eq)
    (rule distinct_keys_fold_fold_add_edge, simp add: Graph_init_def keys_def)

lemma adj_nonempty_key: "adj g k \<noteq> [] \<Longrightarrow> k \<in> set (keys g)"
  by (cases "map_of g k") (auto simp: adj_def keys_def dest: map_of_SomeD intro: rev_image_eqI)

lemma set_sources: "set (sources g w) = {k. w \<in> set (adj g k)}"
proof -
  have "k \<in> set (keys g)" if "w \<in> set (adj g k)" for k
    using that adj_nonempty_key [of g k] by (cases "adj g k") simp_all
  then show ?thesis by (auto simp: sources_def)
qed

lemma edges_sources: "edges (sources g) = (edges (adj g))\<inverse>"
  by (auto simp: edges_def set_sources)

section \<open>Components from the second traversal\<close>

lemma pred_closed_rtrancl:
  assumes "pred_closed nb W" and "(a, z) \<in> (edges nb)\<^sup>*" and "z \<in> W"
  shows "a \<in> W"
  using assms(2,3)
  by (induction rule: converse_rtrancl_induct) (use assms(1) in \<open>auto simp: pred_closed_def\<close>)

lemma avoiding_subset_edges: "avoiding nb V \<subseteq> edges nb"
  by (auto simp: avoiding_def edges_def)

lemma from_on_split: "x \<notin> set R \<Longrightarrow> from_on x (R @ x # D) = insert x (set D)"
  by (simp add: from_on_append_notin) (simp add: from_on_def)

lemma component_is_scc:
  assumes rel: "dfs_rel nbT x W pre post"
    and tr: "edges nbT = (edges nb)\<inverse>"
    and pc: "pred_closed nb W"
    and ord: "ordered_post nb {} S"
    and S: "S = R @ x # D" "distinct S" "set D \<subseteq> W"
    and dom: "\<forall>a. (a, x) \<in> (edges nb)\<^sup>* \<longrightarrow> a \<in> set S"
  shows "set pre = scc_of nb x" and "pred_closed nb (W \<union> set pre)"
proof -
  from dfs_rel_basic(1) [OF rel] have pre: "set pre = set post" and x: "x \<in> set post"
    and disj: "set post \<inter> W = {}" by auto
  have bwd: "(a, x) \<in> (edges nb)\<^sup>*" if "a \<in> set post" for a
  proof -
    from dfs_rel_reach(1) [OF rel] that have "(x, a) \<in> (avoiding nbT W)\<^sup>*" by blast
    then have "(x, a) \<in> (edges nbT)\<^sup>*"
      using rtrancl_mono [OF avoiding_subset_edges] by blast
    then show ?thesis by (simp add: tr rtrancl_converse)
  qed
  have all: "a \<in> set post" if "(a, x) \<in> (edges nb)\<^sup>*" "a \<notin> W" for a
    using that
  proof (induction rule: converse_rtrancl_induct)
    case base
    from x show ?case .
  next
    case (step a b)
    from step.hyps(1) step.prems pc have "b \<notin> W" by (auto simp: pred_closed_def)
    then have "b \<in> set post" by (rule step.IH)
    moreover from step.hyps(1) tr have "a \<in> set (nbT b)" by (auto simp: edges_def)
    ultimately have "a \<in> W \<union> set post" using dfs_rel_closed(1) [OF rel] by blast
    with step.prems show ?case by simp
  qed
  have fwd: "(x, a) \<in> (edges nb)\<^sup>*" if "(a, x) \<in> (edges nb)\<^sup>*" "a \<notin> W" for a
  proof -
    from dom that(1) have "a \<in> set S" by blast
    with ord that(1) obtain z where z: "(a, z) \<in> (edges nb)\<^sup>*" "(z, a) \<in> (edges nb)\<^sup>*"
      "z \<in> from_on x S"
      unfolding ordered_post_def avoiding_empty by blast
    from S have "from_on x S = insert x (set D)" by (simp add: from_on_split)
    with z(3) S(3) have "z = x \<or> z \<in> W" by auto
    moreover have "z \<notin> W" using pred_closed_rtrancl [OF pc z(1)] that(2) by blast
    ultimately show ?thesis using z(2) by simp
  qed
  have "x \<notin> W" using x disj by auto
  show "set pre = scc_of nb x"
  proof (rule set_eqI)
    fix a
    show "a \<in> set pre \<longleftrightarrow> a \<in> scc_of nb x"
    proof
      assume "a \<in> set pre"
      with pre have a: "a \<in> set post" by simp
      with disj have "a \<notin> W" by auto
      with bwd [OF a] fwd show "a \<in> scc_of nb x" by (simp add: scc_of_def)
    next
      assume a: "a \<in> scc_of nb x"
      then have "a \<notin> W" using pred_closed_rtrancl [OF pc, of x a] \<open>x \<notin> W\<close>
        by (auto simp: scc_of_def)
      with a all pre show "a \<in> set pre" by (simp add: scc_of_def)
    qed
  qed
  show "pred_closed nb (W \<union> set pre)"
    unfolding pred_closed_def
  proof (intro allI impI)
    fix z y
    assume e: "(z, y) \<in> edges nb" and y: "y \<in> W \<union> set pre"
    show "z \<in> W \<union> set pre"
    proof (cases "y \<in> W")
      case True
      with pc e show ?thesis by (auto simp: pred_closed_def)
    next
      case False
      with y pre have "y \<in> set post" by simp
      then have "(z, x) \<in> (edges nb)\<^sup>*" using bwd e by (blast intro: converse_rtrancl_into_rtrancl)
      with all pre show ?thesis by auto
    qed
  qed
qed

lemma scc_of_eq: "u \<in> scc_of nb x \<Longrightarrow> scc_of nb u = scc_of nb x"
  by (auto simp: scc_of_def intro: rtrancl_trans)

lemma scc_of_self: "x \<in> scc_of nb x"
  by (simp add: scc_of_def)

lemma components_ok_Nil: "components_ok nb []"
  by (simp add: components_ok_def pred_closed_def)

lemma components_ok_closed: "components_ok nb sccs \<Longrightarrow> pred_closed nb (\<Union> (set ` set sccs))"
  unfolding components_ok_def by (metis order_refl take_all)

lemma components_ok_snoc:
  assumes ok: "components_ok nb sccs"
    and pre: "distinct pre" "set pre \<inter> \<Union> (set ` set sccs) = {}" "set pre = scc_of nb x"
    and pc: "pred_closed nb (\<Union> (set ` set sccs) \<union> set pre)"
  shows "components_ok nb (sccs @ [pre])"
  unfolding components_ok_def
proof (intro conjI ballI allI impI)
  show "distinct (concat (sccs @ [pre]))"
    using ok pre(1,2) by (auto simp: components_ok_def)
next
  fix c assume "c \<in> set (sccs @ [pre])"
  then consider "c \<in> set sccs" | "c = pre" by auto
  then show "c \<noteq> []"
  proof cases
    case 1
    with ok show ?thesis by (simp add: components_ok_def)
  next
    case 2
    with pre(3) scc_of_self [of x nb] show ?thesis by auto
  qed
next
  fix c u assume c: "c \<in> set (sccs @ [pre])" and u: "u \<in> set c"
  from c consider "c \<in> set sccs" | "c = pre" by auto
  then show "set c = scc_of nb u"
  proof cases
    case 1
    with ok u show ?thesis by (simp add: components_ok_def)
  next
    case 2
    with pre(3) u scc_of_eq [of u nb x] show ?thesis by simp
  qed
next
  fix k assume k: "k \<le> length (sccs @ [pre])"
  show "pred_closed nb (\<Union> (set ` set (take k (sccs @ [pre]))))"
  proof (cases "k \<le> length sccs")
    case True
    with ok show ?thesis by (simp add: components_ok_def)
  next
    case False
    with k have "take k (sccs @ [pre]) = sccs @ [pre]" by simp
    with pc show ?thesis by (simp add: Un_commute)
  qed
qed

lemma second_pass_Nil: "second_pass t [] visited sccs = Inr (t, visited, sccs)"
  by simp

lemma second_pass_snoc:
  "second_pass t (stack @ [vertex]) visited sccs =
     (case list_get visited vertex of
        Inl e \<Rightarrow> Inl e
      | Inr b \<Rightarrow>
          if \<not> b then
            (case depth_first_search_transposed t vertex visited [] of
               Inl e \<Rightarrow> Inl e
             | Inr (t1, visited1, component) \<Rightarrow>
                 second_pass t1 stack visited1 (sccs @ [component]))
          else second_pass t stack visited sccs)"
  by (subst second_pass.simps) simp

lemma second_pass_components:
  assumes ord: "ordered_post nb {} S" and dS: "distinct S"
    and tr: "edges nbT = (edges nb)\<inverse>"
    and rngS: "\<forall>i \<in> set S. in_range N i"
    and dom: "\<forall>a b. (a, b) \<in> edges nb \<longrightarrow> a \<in> set S"
  shows "S = stack @ D \<Longrightarrow> adjacency_ok N t \<Longrightarrow> adj t = nbT \<Longrightarrow> length vis = N \<Longrightarrow>
     set D \<subseteq> marked vis \<Longrightarrow> marked vis = \<Union> (set ` set sccs) \<Longrightarrow> components_ok nb sccs \<Longrightarrow>
     \<exists>t' vis' sccs'. second_pass t stack vis sccs = Inr (t', vis', sccs') \<and>
        components_ok nb sccs' \<and> length vis' = N \<and> marked vis' = \<Union> (set ` set sccs') \<and>
        set S \<subseteq> marked vis'"
proof (induction stack arbitrary: D t vis sccs rule: rev_induct)
  case Nil
  then show ?case by (auto simp: second_pass_Nil simp del: second_pass.simps)
next
  case (snoc x stack)
  have S: "S = stack @ x # D" using snoc.prems(1) by simp
  have rng: "in_range (length vis) x" using rngS S snoc.prems(4) by simp
  have get: "list_get vis x = Inr (vis ! nat x)" using rng by (rule list_get_in_range)
  show ?case
  proof (cases "vis ! nat x")
    case True
    then have "x \<in> marked vis" using rng by (simp add: marked_def)
    with snoc.prems(5) have "set (x # D) \<subseteq> marked vis" by simp
    from snoc.IH [OF S snoc.prems(2,3,4) this snoc.prems(6,7)]
    show ?thesis using get True by (simp add: second_pass_snoc del: second_pass.simps)
  next
    case False
    then have unseen: "x \<notin> marked vis" by (simp add: marked_def)
    have rngN: "in_range N x" using rngS S by simp
    from depth_first_search_transposed_rel(1) [OF snoc.prems(2,4) rngN unseen, of "[]"]
    obtain vis1 pre post where
      run: "depth_first_search_transposed t x vis [] = Inr (extend t pre, vis1, pre)"
      and len1: "length vis1 = N" and mk1: "marked vis1 = marked vis \<union> set post"
      and rel: "dfs_rel nbT x (marked vis) pre post"
      using snoc.prems(3) by auto
    from dfs_rel_basic(1) [OF rel] have pre: "set pre = set post" "distinct pre"
      "set post \<inter> marked vis = {}" "x \<in> set post" by auto
    have pc: "pred_closed nb (marked vis)"
      using components_ok_closed [OF snoc.prems(7)] snoc.prems(6) by simp
    have dom': "\<forall>a. (a, x) \<in> (edges nb)\<^sup>* \<longrightarrow> a \<in> set S"
    proof (intro allI impI)
      fix a assume "(a, x) \<in> (edges nb)\<^sup>*"
      then show "a \<in> set S"
        by (cases rule: converse_rtranclE) (use S dom in auto)
    qed
    from component_is_scc [OF rel tr pc ord S dS snoc.prems(5) dom']
    have scc: "set pre = scc_of nb x" and pc': "pred_closed nb (marked vis \<union> set pre)" .
    have ok': "components_ok nb (sccs @ [pre])"
      using snoc.prems(7) pre(2) _ scc
    proof (rule components_ok_snoc)
      show "set pre \<inter> \<Union> (set ` set sccs) = {}"
        using pre(1,3) snoc.prems(6) by auto
      show "pred_closed nb (\<Union> (set ` set sccs) \<union> set pre)"
        using pc' snoc.prems(6) by simp
    qed
    have mk': "marked vis1 = \<Union> (set ` set (sccs @ [pre]))"
      using mk1 pre(1) snoc.prems(6) by auto
    have D': "set (x # D) \<subseteq> marked vis1"
      using snoc.prems(5) mk1 pre(4) by auto
    have "\<forall>k \<in> set pre. in_range N k"
      using pre(1) mk1 len1 marked_in_range [of _ vis1] by auto
    with snoc.prems(2) have okt: "adjacency_ok N (extend t pre)" by (rule adjacency_ok_extend)
    have adjt: "adj (extend t pre) = nbT" using snoc.prems(3) by (simp add: adj_extend)
    from snoc.IH [OF S okt adjt len1 D' mk' ok']
    show ?thesis using get False run by (simp add: second_pass_snoc del: second_pass.simps)
  qed
qed

lemma in_range_upt: "(\<forall>n \<in> set (map int [0..<N]). in_range N n)"
  by (simp add: in_range_def)

lemma in_range_image: "in_range N i \<Longrightarrow> i \<in> set (map int [0..<N])"
  unfolding in_range_def by (auto simp: image_iff intro!: bexI [of _ "nat i"])

lemma edges_in_range:
  "adjacency_ok N g \<Longrightarrow> (a, b) \<in> edges (adj g) \<Longrightarrow> in_range N a \<and> in_range N b"
proof -
  assume ok: "adjacency_ok N g" and e: "(a, b) \<in> edges (adj g)"
  then have b: "b \<in> set (adj g a)" by (simp add: edges_def)
  then have "adj g a \<noteq> []" by auto
  then have "a \<in> set (keys g)" by (rule adj_nonempty_key)
  with ok b show ?thesis by (auto dest: adjacency_ok_key adjacency_ok_adj)
qed

text \<open>What one run of \<open>find_strongly_connected_components\<close> does on a well-formed graph.\<close>

lemma find_strongly_connected_components_run:
  assumes ok: "adjacency_ok (vertices G) (graph G)"
  shows "\<exists>pre S vis1 t2 vis2 sccs.
     dfs_loop_rel (adj (graph G)) (map int [0..<vertices G]) {} pre S \<and>
     first_pass (graph G) (map int [0..<vertices G]) (replicate (vertices G) False) []
       = Inr (extend (graph G) pre, vis1, S) \<and>
     second_pass (graph (snd (transpose_graph (G\<lparr>graph := extend (graph G) pre\<rparr>)))) S
         (replicate (vertices G) False) [] = Inr (t2, vis2, sccs) \<and>
     find_strongly_connected_components G = Inr (sccs, G\<lparr>graph := extend (graph G) pre\<rparr>) \<and>
     set pre = {i. in_range (vertices G) i} \<and>
     components_ok (adj (graph G)) sccs \<and>
     \<Union> (set ` set sccs) = {i. in_range (vertices G) i}"
proof -
  let ?N = "vertices G" and ?g = "graph G"
  let ?nb = "adj ?g"
  have len0: "length (replicate ?N False) = ?N" by simp
  from depth_first_search_rel(2) [OF ok len0 in_range_upt, of "[]"]
  obtain vis1 pre S where
    run1: "depth_first_search_loop ?g (map int [0..<?N]) (replicate ?N False) []
           = Inr (extend ?g pre, vis1, S)"
    and len1: "length vis1 = ?N" and mk1: "marked vis1 = set S"
    and rel: "dfs_loop_rel ?nb (map int [0..<?N]) {} pre S"
    by (auto simp: marked_replicate)
  from dfs_rel_basic(2) [OF rel] have pre: "set pre = set S" and dS: "distinct S"
    and all: "set (map int [0..<?N]) \<subseteq> set S" by auto
  have setS: "set S = {i. in_range ?N i}"
  proof (rule set_eqI)
    fix i show "i \<in> set S \<longleftrightarrow> i \<in> {i. in_range ?N i}"
      using all in_range_image [of ?N i] mk1 len1 marked_in_range [of i vis1] by auto
  qed
  let ?G1 = "G\<lparr>graph := extend ?g pre\<rparr>"
  obtain T where tg: "transpose_graph ?G1 = (?G1, T)"
    using transpose_graph_self [of ?G1] by (cases "transpose_graph ?G1") simp
  then have T: "snd (transpose_graph ?G1) = T" by simp
  have ok1: "adjacency_ok ?N (extend ?g pre)"
    using ok by (rule adjacency_ok_extend) (simp add: pre setS)
  have okT: "adjacency_ok ?N (graph T)"
    using transpose_graph_ok [of ?N ?G1] ok1 by (simp add: T)
  have adjT: "adj (graph T) = sources (extend ?g pre)"
    using transpose_graph_adj [of ?G1] by (auto simp: T)
  have tr: "edges (sources (extend ?g pre)) = (edges ?nb)\<inverse>"
    by (simp add: edges_sources adj_extend)
  have ord: "ordered_post ?nb {} S" using rel by (rule dfs_rel_ordered(2))
  have rngS: "\<forall>i \<in> set S. in_range ?N i" by (simp add: setS)
  have dom: "\<forall>a b. (a, b) \<in> edges ?nb \<longrightarrow> a \<in> set S"
    using edges_in_range [OF ok] by (auto simp: setS)
  from second_pass_components [OF ord dS tr rngS dom, of S "[]" "graph T" "replicate ?N False" "[]"]
  obtain t2 vis2 sccs where
    run2: "second_pass (graph T) S (replicate ?N False) [] = Inr (t2, vis2, sccs)"
    and cok: "components_ok ?nb sccs" and len2: "length vis2 = ?N"
    and mk2: "marked vis2 = \<Union> (set ` set sccs)" and cover: "set S \<subseteq> marked vis2"
    using okT adjT by (auto simp: marked_replicate components_ok_Nil)
  have union: "\<Union> (set ` set sccs) = {i. in_range ?N i}"
  proof (rule set_eqI)
    fix i show "i \<in> \<Union> (set ` set sccs) \<longleftrightarrow> i \<in> {i. in_range ?N i}"
      using cover setS mk2 len2 marked_in_range [of i vis2] by auto
  qed
  have "find_strongly_connected_components G = Inr (sccs, ?G1)"
    unfolding find_strongly_connected_components_def
    using run1 run2 tg by (simp add: first_pass_loop del: second_pass.simps)
  with rel run1 run2 pre setS cok union show ?thesis
    by (auto simp: first_pass_loop T simp del: second_pass.simps)
qed

lemma distinct_concat_unique:
  "distinct (concat xss) \<Longrightarrow> i < length xss \<Longrightarrow> j < length xss \<Longrightarrow>
   v \<in> set (xss ! i) \<Longrightarrow> v \<in> set (xss ! j) \<Longrightarrow> i = j"
proof (induction xss arbitrary: i j)
  case Nil
  then show ?case by simp
next
  case (Cons xs xss)
  show ?case
  proof (cases i)
    case 0
    show ?thesis
    proof (cases j)
      case 0
      with \<open>i = 0\<close> show ?thesis by simp
    next
      case (Suc j')
      with 0 Cons.prems have *: "v \<in> set xs" "v \<in> set (xss ! j')" "j' < length xss" by simp_all
      then have "xss ! j' \<in> set xss" by simp
      with *(2) have "v \<in> \<Union> (set ` set xss)" by blast
      with Cons.prems(1) *(1) have False by auto
      then show ?thesis ..
    qed
  next
    case (Suc i')
    show ?thesis
    proof (cases j)
      case 0
      with Suc Cons.prems have *: "v \<in> set xs" "v \<in> set (xss ! i')" "i' < length xss" by simp_all
      then have "xss ! i' \<in> set xss" by simp
      with *(2) have "v \<in> \<Union> (set ` set xss)" by blast
      with Cons.prems(1) *(1) have False by auto
      then show ?thesis ..
    next
      case (Suc j')
      with \<open>i = Suc i'\<close> Cons.prems Cons.IH [of i' j'] show ?thesis by simp
    qed
  qed
qed

lemma distinct_concat_member: "distinct (concat xss) \<Longrightarrow> c \<in> set xss \<Longrightarrow> distinct c"
  by (induction xss) auto

lemma two_cycle_graph_ok: "graph_ok two_cycle_graph"
  by code_simp

section \<open>Partition and mutual reachability\<close>

text \<open>
  C3. On a graph whose edges stay inside \<open>[0, N)\<close>, \<open>find_strongly_connected_components\<close>
  returns, and the components it returns partition \<open>[0, N)\<close>: their concatenation has no
  repetition, holds exactly the vertices \<open>0 .. N - 1\<close>, and every vertex lies in exactly
  one component.
\<close>

theorem components_partition_vertices:
  assumes "graph_ok G"
  shows "\<exists>sccs G1. find_strongly_connected_components G = Inr (sccs, G1) \<and>
     distinct (concat sccs) \<and>
     set (concat sccs) = {v. 0 \<le> v \<and> v < int (vertices G)} \<and>
     (\<forall>v. 0 \<le> v \<and> v < int (vertices G) \<longrightarrow> (\<exists>!k. k < length sccs \<and> v \<in> set (sccs ! k)))"
proof -
  from assms have ok: "adjacency_ok (vertices G) (graph G)" by (simp add: graph_ok_def)
  from find_strongly_connected_components_run [OF ok]
  obtain sccs G1 where run: "find_strongly_connected_components G = Inr (sccs, G1)"
    and cok: "components_ok (adj (graph G)) sccs"
    and union: "\<Union> (set ` set sccs) = {i. in_range (vertices G) i}"
    by blast
  from cok have d: "distinct (concat sccs)" by (simp add: components_ok_def)
  from union have s: "set (concat sccs) = {v. 0 \<le> v \<and> v < int (vertices G)}"
    by (simp add: in_range_def)
  have "\<exists>!k. k < length sccs \<and> v \<in> set (sccs ! k)" if "0 \<le> v \<and> v < int (vertices G)" for v
  proof -
    from that s have "v \<in> set (concat sccs)" by simp
    then obtain c where "c \<in> set sccs" "v \<in> set c" by auto
    then obtain k where "k < length sccs" "v \<in> set (sccs ! k)" by (auto simp: in_set_conv_nth)
    then show ?thesis using distinct_concat_unique [OF d] by blast
  qed
  with run d s show ?thesis by blast
qed

theorem components_partition_vertices_witness:
  "graph_ok two_cycle_graph \<and>
   (\<exists>sccs G1. find_strongly_connected_components two_cycle_graph = Inr (sccs, G1) \<and>
     distinct (concat sccs) \<and>
     set (concat sccs) = {v. 0 \<le> v \<and> v < int (vertices two_cycle_graph)} \<and>
     (\<forall>v. 0 \<le> v \<and> v < int (vertices two_cycle_graph) \<longrightarrow>
        (\<exists>!k. k < length sccs \<and> v \<in> set (sccs ! k))))"
proof -
  have h: "graph_ok two_cycle_graph" by code_simp
  show ?thesis using h components_partition_vertices [OF h] by blast
qed

text \<open>
  C2. On such a graph, two vertices share a returned component if and only if each
  reaches the other along edges of the graph (so for vertices of different components one
  direction is missing), and a vertex without outgoing and incoming edges is a
  component by itself.
\<close>

theorem same_component_iff_mutually_reachable:
  assumes "graph_ok G" and "0 \<le> u \<and> u < int (vertices G)" and "0 \<le> v \<and> v < int (vertices G)"
  shows "\<exists>sccs G1. find_strongly_connected_components G = Inr (sccs, G1) \<and>
     ((\<exists>c \<in> set sccs. u \<in> set c \<and> v \<in> set c) \<longleftrightarrow> reaches G u v \<and> reaches G v u) \<and>
     (adj (graph G) u = [] \<and> (\<forall>w. u \<notin> set (adj (graph G) w)) \<longrightarrow> [u] \<in> set sccs)"
proof -
  from assms have ok: "adjacency_ok (vertices G) (graph G)" by (simp add: graph_ok_def)
  from find_strongly_connected_components_run [OF ok]
  obtain sccs G1 where run: "find_strongly_connected_components G = Inr (sccs, G1)"
    and cok: "components_ok (adj (graph G)) sccs"
    and union: "\<Union> (set ` set sccs) = {i. in_range (vertices G) i}"
    by blast
  from assms(2) union obtain cu where cu: "cu \<in> set sccs" "u \<in> set cu"
    by (auto simp: in_range_def)
  with cok have scc_u: "set cu = scc_of (adj (graph G)) u" and dcu: "distinct cu"
    by (auto simp: components_ok_def dest: distinct_concat_member)
  have iff: "(\<exists>c \<in> set sccs. u \<in> set c \<and> v \<in> set c) \<longleftrightarrow> reaches G u v \<and> reaches G v u"
  proof
    assume "\<exists>c \<in> set sccs. u \<in> set c \<and> v \<in> set c"
    then obtain c where c: "c \<in> set sccs" "u \<in> set c" "v \<in> set c" by blast
    with cok have "set c = scc_of (adj (graph G)) u" by (simp add: components_ok_def)
    with c(3) show "reaches G u v \<and> reaches G v u" by (simp add: scc_of_def reaches_def)
  next
    assume "reaches G u v \<and> reaches G v u"
    then have "v \<in> scc_of (adj (graph G)) u" by (simp add: scc_of_def reaches_def)
    with scc_u cu show "\<exists>c \<in> set sccs. u \<in> set c \<and> v \<in> set c" by blast
  qed
  have single: "[u] \<in> set sccs" if iso: "adj (graph G) u = []" "\<forall>w. u \<notin> set (adj (graph G) w)"
  proof -
    have "(u, y) \<in> (edges (adj (graph G)))\<^sup>* \<Longrightarrow> y = u" for y
      by (erule converse_rtranclE) (use iso(1) in \<open>auto simp: edges_def\<close>)
    then have "scc_of (adj (graph G)) u = {u}" by (auto simp: scc_of_def)
    with scc_u dcu have "cu = [u]"
      by (metis distinct.simps(2) distinct_singleton empty_iff empty_set insert_iff list.exhaust list.set(2) list.set_intros(1) set_ConsD singletonD)
    with cu show ?thesis by simp
  qed
  from run iff single show ?thesis by blast
qed

theorem same_component_iff_mutually_reachable_witness:
  "graph_ok two_cycle_graph \<and>
   (0 \<le> (0::int) \<and> (0::int) < int (vertices two_cycle_graph)) \<and>
   (0 \<le> (1::int) \<and> (1::int) < int (vertices two_cycle_graph)) \<and>
   (\<exists>sccs G1. find_strongly_connected_components two_cycle_graph = Inr (sccs, G1) \<and>
     ((\<exists>c \<in> set sccs. 0 \<in> set c \<and> 1 \<in> set c) \<longleftrightarrow>
        reaches two_cycle_graph 0 1 \<and> reaches two_cycle_graph 1 0) \<and>
     (adj (graph two_cycle_graph) 0 = [] \<and> (\<forall>w. 0 \<notin> set (adj (graph two_cycle_graph) w))
        \<longrightarrow> [0] \<in> set sccs))"
proof -
  have h1: "graph_ok two_cycle_graph" by code_simp
  have h2: "0 \<le> (0::int) \<and> (0::int) < int (vertices two_cycle_graph)" by code_simp
  have h3: "0 \<le> (1::int) \<and> (1::int) < int (vertices two_cycle_graph)" by code_simp
  show ?thesis
    using h1 h2 h3 same_component_iff_mutually_reachable [OF h1 h2 h3] by blast
qed

section \<open>The condensed graph\<close>

subsection \<open>The component index of a vertex\<close>

lemma scc_map_assign_apply:
  "scc_map_assign idx scc m v = (if v \<in> set scc then Some idx else m v)"
  by (induction scc arbitrary: m) auto

lemma scc_map_loop_notin:
  "\<forall>c \<in> set sccs. v \<notin> set c \<Longrightarrow> scc_map_loop n sccs m v = m v"
  by (induction sccs arbitrary: n m) (simp_all add: scc_map_assign_apply)

lemma scc_map_loop_in:
  "distinct (concat sccs) \<Longrightarrow> j < length sccs \<Longrightarrow> v \<in> set (sccs ! j) \<Longrightarrow>
   scc_map_loop n sccs m v = Some (n + j)"
proof (induction sccs arbitrary: n m j)
  case Nil
  then show ?case by simp
next
  case (Cons c cs)
  show ?case
  proof (cases j)
    case 0
    with Cons.prems have v: "v \<in> set c" and "\<forall>c' \<in> set cs. v \<notin> set c'" by auto
    then show ?thesis using 0 by (simp add: scc_map_loop_notin scc_map_assign_apply)
  next
    case (Suc j')
    with Cons.prems Cons.IH [of j' "Suc n"] show ?thesis by simp
  qed
qed

lemma scc_map_of_in:
  "distinct (concat sccs) \<Longrightarrow> j < length sccs \<Longrightarrow> v \<in> set (sccs ! j) \<Longrightarrow>
   scc_map_of sccs v = Some j"
  using scc_map_loop_in [of sccs j v 0] by (simp add: scc_map_of_def)

lemma scc_map_of_Some:
  assumes "distinct (concat sccs)" and "scc_map_of sccs v = Some i"
  shows "i < length sccs \<and> v \<in> set (sccs ! i)"
proof (cases "\<forall>c \<in> set sccs. v \<notin> set c")
  case True
  then have "scc_map_of sccs v = None"
    unfolding scc_map_of_def by (simp add: scc_map_loop_notin)
  with assms(2) show ?thesis by simp
next
  case False
  then obtain j where j: "j < length sccs" "v \<in> set (sccs ! j)"
    by (metis in_set_conv_nth)
  with assms show ?thesis using scc_map_of_in [of sccs j v] by simp
qed

lemma components_topological:
  assumes ok: "components_ok nb sccs" and e: "(a, b) \<in> edges nb"
    and i: "i < length sccs" "a \<in> set (sccs ! i)" and j: "j < length sccs" "b \<in> set (sccs ! j)"
  shows "i \<le> j"
proof -
  from ok j(1) have pc: "pred_closed nb (\<Union> (set ` set (take (Suc j) sccs)))"
    and d: "distinct (concat sccs)"
    by (simp_all add: components_ok_def)
  have "sccs ! j \<in> set (take (Suc j) sccs)"
    using j(1) by (auto simp: in_set_conv_nth intro!: exI [of _ j])
  with j(2) have "b \<in> \<Union> (set ` set (take (Suc j) sccs))" by blast
  with pc e have "a \<in> \<Union> (set ` set (take (Suc j) sccs))" by (auto simp: pred_closed_def)
  then obtain k where k: "k < length (take (Suc j) sccs)" "a \<in> set (take (Suc j) sccs ! k)"
    by (metis UN_E in_set_conv_nth)
  then have "k < length sccs" "k \<le> j" "a \<in> set (sccs ! k)" by auto
  with distinct_concat_unique [OF d i(1) _ i(2)] show ?thesis by blast
qed

subsection \<open>Building the condensed graph\<close>

lemma compressed_add_update:
  "compressed_add cg i j = AList.update i (set_add j (adj cg i)) cg"
  by (cases "i \<in> set (keys cg)")
    (simp_all add: compressed_add_def dd_get_extend extend_def update_append_empty keys_def)

lemma compressed_sound_add:
  "compressed_sound P cg \<Longrightarrow> P i j \<Longrightarrow> compressed_sound P (compressed_add cg i j)"
  by (auto simp: compressed_sound_def compressed_add_update adj_update set_add_def)

lemma compress_edges_sound:
  "compress_edges m f ns cg = Inr cg' \<Longrightarrow> compressed_sound P cg \<Longrightarrow>
   (\<forall>t \<in> set ns. \<forall>i j. m f = Some i \<longrightarrow> m t = Some j \<longrightarrow> i \<noteq> j \<longrightarrow> P i j) \<Longrightarrow>
   compressed_sound P cg'"
proof (induction ns arbitrary: cg)
  case Nil
  then show ?case by simp
next
  case (Cons t ns)
  from Cons.prems(1) obtain i j where ij: "m f = Some i" "m t = Some j"
    by (auto split: option.splits)
  show ?case
  proof (cases "i = j")
    case True
    with Cons ij show ?thesis by simp
  next
    case False
    with Cons.prems(3) ij have "P i j" by simp
    with Cons.prems(2) have "compressed_sound P (compressed_add cg i j)"
      by (auto intro: compressed_sound_add)
    with Cons.IH [of "compressed_add cg i j"] Cons.prems(1,3) ij False show ?thesis by simp
  qed
qed

lemma compress_edges_succeeds:
  "(ns \<noteq> [] \<longrightarrow> m f \<noteq> None) \<Longrightarrow> \<forall>t \<in> set ns. m t \<noteq> None \<Longrightarrow>
   \<exists>cg'. compress_edges m f ns cg = Inr cg'"
  by (induction ns arbitrary: cg) (auto split: option.splits)

lemma compress_keys_sound:
  "compress_keys m g ks cg = Inr (g', cg') \<Longrightarrow> set ks \<subseteq> set (keys g) \<Longrightarrow>
   compressed_sound P cg \<Longrightarrow>
   (\<forall>f t i j. t \<in> set (adj g f) \<longrightarrow> m f = Some i \<longrightarrow> m t = Some j \<longrightarrow> i \<noteq> j \<longrightarrow> P i j) \<Longrightarrow>
   g' = g \<and> compressed_sound P cg'"
proof (induction ks arbitrary: cg)
  case Nil
  then show ?case by simp
next
  case (Cons k ks)
  from Cons.prems(2) have k: "dd_get g k = (adj g k, g)"
    by (simp add: dd_get_extend extend_keys)
  with Cons.prems(1) obtain cg1 where 1: "compress_edges m k (adj g k) cg = Inr cg1"
    and 2: "compress_keys m g ks cg1 = Inr (g', cg')"
    by (auto split: sum.splits)
  from 1 Cons.prems(3,4) have "compressed_sound P cg1"
    by (intro compress_edges_sound [of m k "adj g k" cg cg1 P]) auto
  with Cons.IH [OF 2] Cons.prems(2,4) show ?case by simp
qed

lemma compress_keys_succeeds:
  "set ks \<subseteq> set (keys g) \<Longrightarrow> \<forall>k \<in> set (keys g). m k \<noteq> None \<Longrightarrow>
   \<forall>f. \<forall>t \<in> set (adj g f). m t \<noteq> None \<Longrightarrow>
   \<exists>cg'. compress_keys m g ks cg = Inr (g, cg')"
proof (induction ks arbitrary: cg)
  case Nil
  then show ?case by simp
next
  case (Cons k ks)
  from Cons.prems(1) have k: "dd_get g k = (adj g k, g)"
    by (simp add: dd_get_extend extend_keys)
  from Cons.prems obtain cg1 where 1: "compress_edges m k (adj g k) cg = Inr cg1"
    using compress_edges_succeeds [of "adj g k" m k cg] by auto
  from Cons.IH [of cg1] Cons.prems obtain cg' where "compress_keys m g ks cg1 = Inr (g, cg')"
    by auto
  with k 1 show ?case by simp
qed

lemma compressed_sound_Nil: "compressed_sound P []"
  by (simp add: compressed_sound_def adj_Nil)

lemma build_compressed_graph_run:
  assumes ok: "adjacency_ok N (graph G1)"
    and cok: "components_ok (adj (graph G1)) sccs"
    and union: "\<Union> (set ` set sccs) = {i. in_range N i}"
  shows "\<exists>cg. build_compressed_graph_from_sccs G1 sccs = Inr (cg, G1) \<and>
     compressed_sound (\<lambda>i j. i < j \<and> j < length sccs) cg"
proof -
  let ?g = "graph G1" and ?m = "scc_map_of sccs"
  from cok have d: "distinct (concat sccs)" by (simp add: components_ok_def)
  have defined: "?m v \<noteq> None" if "in_range N v" for v
  proof -
    from that union obtain c where "c \<in> set sccs" "v \<in> set c" by blast
    then obtain j where "j < length sccs" "v \<in> set (sccs ! j)" by (metis in_set_conv_nth)
    with d show ?thesis by (simp add: scc_map_of_in)
  qed
  have keys: "\<forall>k \<in> set (keys ?g). ?m k \<noteq> None"
    using ok defined by (auto dest: adjacency_ok_key)
  have nbs: "\<forall>f. \<forall>t \<in> set (adj ?g f). ?m t \<noteq> None"
    using ok defined by (auto dest: adjacency_ok_adj)
  from compress_keys_succeeds [OF subset_refl keys nbs, of "[]"]
  obtain cg where run: "compress_keys ?m ?g (keys ?g) [] = Inr (?g, cg)" by blast
  have order: "\<forall>f t i j. t \<in> set (adj ?g f) \<longrightarrow> ?m f = Some i \<longrightarrow> ?m t = Some j \<longrightarrow> i \<noteq> j
      \<longrightarrow> i < j \<and> j < length sccs"
  proof (intro allI impI)
    fix f t i j
    assume t: "t \<in> set (adj ?g f)" and i: "?m f = Some i" and j: "?m t = Some j" and ne: "i \<noteq> j"
    from scc_map_of_Some [OF d i] scc_map_of_Some [OF d j]
    have *: "i < length sccs" "f \<in> set (sccs ! i)" "j < length sccs" "t \<in> set (sccs ! j)"
      by simp_all
    from t have "(f, t) \<in> edges (adj ?g)" by (simp add: edges_def)
    from components_topological [OF cok this *] ne * show "i < j \<and> j < length sccs" by simp
  qed
  from compress_keys_sound [OF run subset_refl compressed_sound_Nil order]
  have "compressed_sound (\<lambda>i j. i < j \<and> j < length sccs) cg" by simp
  moreover have "build_compressed_graph_from_sccs G1 sccs = Inr (cg, G1)"
    using run by (simp add: build_compressed_graph_from_sccs_def)
  ultimately show ?thesis by blast
qed

lemma compressed_sound_acyclic:
  assumes "compressed_sound (\<lambda>i j. i < j \<and> Q j) cg"
  shows "acyclic (edges (adj cg))"
proof -
  have "edges (adj cg) \<subseteq> less_than"
    using assms by (auto simp: compressed_sound_def edges_def)
  moreover have "acyclic (less_than :: (nat \<times> nat) set)" by (rule wf_acyclic) simp
  ultimately show ?thesis by (rule acyclic_subset [rotated])
qed

subsection \<open>Acyclicity\<close>

text \<open>
  C4. On a graph whose edges stay inside \<open>[0, N)\<close>, the condensed graph that
  \<open>build_compressed_graph_from_sccs\<close> returns for the components found by
  \<open>find_strongly_connected_components\<close> has no directed cycle, and no component is
  recorded as its own neighbour.
\<close>

theorem compressed_graph_acyclic:
  assumes "graph_ok G"
  shows "\<exists>sccs G1 cg G2. find_strongly_connected_components G = Inr (sccs, G1) \<and>
     build_compressed_graph_from_sccs G1 sccs = Inr (cg, G2) \<and>
     acyclic (edges (adj cg)) \<and> (\<forall>i. i \<notin> set (adj cg i))"
proof -
  from assms have ok: "adjacency_ok (vertices G) (graph G)" by (simp add: graph_ok_def)
  from find_strongly_connected_components_run [OF ok]
  obtain pre sccs where run: "find_strongly_connected_components G
      = Inr (sccs, G\<lparr>graph := extend (graph G) pre\<rparr>)"
    and pre: "set pre = {i. in_range (vertices G) i}"
    and cok: "components_ok (adj (graph G)) sccs"
    and union: "\<Union> (set ` set sccs) = {i. in_range (vertices G) i}"
    by blast
  let ?G1 = "G\<lparr>graph := extend (graph G) pre\<rparr>"
  have ok1: "adjacency_ok (vertices G) (graph ?G1)"
    using adjacency_ok_extend [OF ok, of pre] pre by simp
  have cok1: "components_ok (adj (graph ?G1)) sccs" using cok by (simp add: adj_extend)
  from build_compressed_graph_run [OF ok1 cok1 union]
  obtain cg where build: "build_compressed_graph_from_sccs ?G1 sccs = Inr (cg, ?G1)"
    and sound: "compressed_sound (\<lambda>i j. i < j \<and> j < length sccs) cg"
    by blast
  have "acyclic (edges (adj cg))" using sound by (rule compressed_sound_acyclic)
  moreover have "\<forall>i. i \<notin> set (adj cg i)"
    using sound by (auto simp: compressed_sound_def)
  ultimately show ?thesis using run build by blast
qed

theorem compressed_graph_acyclic_witness:
  "graph_ok two_cycle_graph \<and>
   (\<exists>sccs G1 cg G2. find_strongly_connected_components two_cycle_graph = Inr (sccs, G1) \<and>
     build_compressed_graph_from_sccs G1 sccs = Inr (cg, G2) \<and>
     acyclic (edges (adj cg)) \<and> (\<forall>i. i \<notin> set (adj cg i)))"
proof -
  have h: "graph_ok two_cycle_graph" by code_simp
  show ?thesis using h compressed_graph_acyclic [OF h] by blast
qed

section \<open>The start component and the error surface\<close>

subsection \<open>Which errors can come out\<close>

lemma list_get_error: "list_get xs i = Inl e \<Longrightarrow> e = IndexError"
  by (auto simp: list_get_def split: option.splits)

lemma list_set_error: "list_set xs i v = Inl e \<Longrightarrow> e = IndexError"
  by (auto simp: list_set_def split: option.splits)

lemma depth_first_search_error:
  "depth_first_search g v vis st = Inl e \<Longrightarrow> e = IndexError"
  "depth_first_search_loop g ns vis st = Inl e \<Longrightarrow> e = IndexError"
proof (induction g v vis st and g ns vis st rule: depth_first_search_depth_first_search_loop.induct)
  case (1 g vertex visited stack)
  then show ?case
    by (auto split: sum.splits prod.splits dest: list_set_error)
next
  case (2 g visited stack)
  then show ?case by simp
next
  case (3 g neighbor ns visited stack)
  then show ?case
    by (auto split: sum.splits prod.splits if_splits dest: list_get_error)
qed

lemma depth_first_search_transposed_error:
  "depth_first_search_transposed g v vis st = Inl e \<Longrightarrow> e = IndexError"
  "depth_first_search_transposed_loop g ns vis st = Inl e \<Longrightarrow> e = IndexError"
proof (induction g v vis st and g ns vis st
    rule: depth_first_search_transposed_depth_first_search_transposed_loop.induct)
  case (1 g vertex visited component)
  then show ?case
    by (auto split: sum.splits prod.splits dest: list_set_error)
next
  case (2 g visited component)
  then show ?case by simp
next
  case (3 g neighbor ns visited component)
  then show ?case
    by (auto split: sum.splits prod.splits if_splits dest: list_get_error)
qed

lemma first_pass_error: "first_pass g is vis st = Inl e \<Longrightarrow> e = IndexError"
  by (simp add: first_pass_loop depth_first_search_error)

lemma second_pass_error: "second_pass t stack vis sccs = Inl e \<Longrightarrow> e = IndexError"
proof (induction stack arbitrary: t vis sccs rule: rev_induct)
  case Nil
  then show ?case by (simp add: second_pass_Nil del: second_pass.simps)
next
  case (snoc x stack)
  then show ?case
    by (auto simp: second_pass_snoc
        simp del: second_pass.simps depth_first_search_transposed.simps
        split: sum.splits prod.splits if_splits
        dest: list_get_error depth_first_search_transposed_error)
qed

lemma find_strongly_connected_components_error:
  "find_strongly_connected_components G = Inl e \<Longrightarrow> e = IndexError"
  unfolding find_strongly_connected_components_def
  by (auto split: sum.splits prod.splits dest: first_pass_error second_pass_error
      simp del: second_pass.simps)

lemma compress_edges_error: "compress_edges m f ns cg = Inl e \<Longrightarrow> \<exists>v. e = KeyError_vertex v"
  by (induction ns arbitrary: cg) (auto split: option.splits if_splits)

lemma compress_keys_error: "compress_keys m g ks cg = Inl e \<Longrightarrow> \<exists>v. e = KeyError_vertex v"
  by (induction ks arbitrary: g cg)
    (auto split: sum.splits prod.splits dest: compress_edges_error)

lemma build_compressed_graph_error:
  "build_compressed_graph_from_sccs G sccs = Inl e \<Longrightarrow> \<exists>v. e = KeyError_vertex v"
  unfolding build_compressed_graph_from_sccs_def
  by (auto split: sum.splits prod.splits dest: compress_keys_error)

lemma start_scc_of_error:
  "start_scc_of aps s sccs n = Inl e \<Longrightarrow>
   e = StopIteration \<or> (e = KeyError_label s \<and> map_of aps s = None)"
  by (induction sccs arbitrary: n) (auto split: option.splits if_splits)

lemma start_scc_of_found:
  "map_of aps s = Some v \<Longrightarrow> v \<in> \<Union> (set ` set sccs) \<Longrightarrow>
   \<exists>i. start_scc_of aps s sccs n = Inr i \<and> n \<le> i \<and> i - n < length sccs \<and> v \<in> set (sccs ! (i - n))"
proof (induction sccs arbitrary: n)
  case Nil
  then show ?case by simp
next
  case (Cons c cs)
  show ?case
  proof (cases "v \<in> set c")
    case True
    with Cons.prems show ?thesis by simp
  next
    case False
    with Cons.prems have "v \<in> \<Union> (set ` set cs)" by simp
    from Cons.IH [OF Cons.prems(1) this, of "Suc n"]
    obtain i where i: "start_scc_of aps s cs (Suc n) = Inr i" "Suc n \<le> i"
      "i - Suc n < length cs" "v \<in> set (cs ! (i - Suc n))" by blast
    then have "(c # cs) ! (i - n) = cs ! (i - Suc n)" by (simp add: nth_Cons')
    with i False Cons.prems(1) show ?thesis by auto
  qed
qed

lemma start_scc_of_unknown:
  "map_of aps s = None \<Longrightarrow> sccs \<noteq> [] \<Longrightarrow> start_scc_of aps s sccs n = Inl (KeyError_label s)"
  by (cases sccs) simp_all

lemma airports_build_compressed:
  "build_compressed_graph_from_sccs G sccs = Inr (cg, G2) \<Longrightarrow> airports G2 = airports G"
  unfolding build_compressed_graph_from_sccs_def by (auto split: sum.splits prod.splits)

text \<open>One whole run of \<open>find_minimum_additional_routes\<close> on a well-formed graph.\<close>

lemma find_minimum_additional_routes_run:
  assumes ok: "adjacency_ok (vertices G) (graph G)"
  shows "\<exists>pre sccs cg.
     find_strongly_connected_components G = Inr (sccs, G\<lparr>graph := extend (graph G) pre\<rparr>) \<and>
     build_compressed_graph_from_sccs (G\<lparr>graph := extend (graph G) pre\<rparr>) sccs
       = Inr (cg, G\<lparr>graph := extend (graph G) pre\<rparr>) \<and>
     set pre = {i. in_range (vertices G) i} \<and>
     components_ok (adj (graph G)) sccs \<and>
     \<Union> (set ` set sccs) = {i. in_range (vertices G) i} \<and>
     find_minimum_additional_routes G s =
       (case start_scc_of (airports G) s sccs 0 of
          Inl e \<Rightarrow> Inl e
        | Inr start_scc \<Rightarrow>
            Inr (calculate_routes_needed cg start_scc, G\<lparr>graph := extend (graph G) pre\<rparr>))"
proof -
  from find_strongly_connected_components_run [OF ok]
  obtain pre sccs where run: "find_strongly_connected_components G
      = Inr (sccs, G\<lparr>graph := extend (graph G) pre\<rparr>)"
    and pre: "set pre = {i. in_range (vertices G) i}"
    and cok: "components_ok (adj (graph G)) sccs"
    and union: "\<Union> (set ` set sccs) = {i. in_range (vertices G) i}"
    by blast
  let ?G1 = "G\<lparr>graph := extend (graph G) pre\<rparr>"
  have ok1: "adjacency_ok (vertices G) (graph ?G1)"
    using adjacency_ok_extend [OF ok, of pre] pre by simp
  have cok1: "components_ok (adj (graph ?G1)) sccs" using cok by (simp add: adj_extend)
  from build_compressed_graph_run [OF ok1 cok1 union]
  obtain cg where build: "build_compressed_graph_from_sccs ?G1 sccs = Inr (cg, ?G1)"
    by blast
  have "find_minimum_additional_routes G s =
       (case start_scc_of (airports G) s sccs 0 of
          Inl e \<Rightarrow> Inl e
        | Inr start_scc \<Rightarrow> Inr (calculate_routes_needed cg start_scc, ?G1))"
    using run build by (simp add: find_minimum_additional_routes_def)
  with run build pre cok union show ?thesis by blast
qed

subsection \<open>Lookup of the start component\<close>

text \<open>
  C10. On a graph whose edges stay inside \<open>[0, N)\<close>, for a start label registered with
  an id in \<open>[0, N)\<close>, the scan for the start component returns the index of the component
  that holds that id, so it never ends in \<open>StopIteration\<close>, and
  \<open>find_minimum_additional_routes\<close> returns an integer.
\<close>

theorem start_component_lookup_succeeds:
  assumes "graph_ok G" and "map_of (airports G) start_airport = Some v"
    and "0 \<le> v \<and> v < int (vertices G)"
  shows "\<exists>sccs G1 i r G2. find_strongly_connected_components G = Inr (sccs, G1) \<and>
     start_scc_of (airports G1) start_airport sccs 0 = Inr i \<and>
     i < length sccs \<and> v \<in> set (sccs ! i) \<and>
     find_minimum_additional_routes G start_airport = Inr (r, G2)"
proof -
  from assms have ok: "adjacency_ok (vertices G) (graph G)" by (simp add: graph_ok_def)
  from find_minimum_additional_routes_run [OF ok, of start_airport]
  obtain pre sccs cg where
    run: "find_strongly_connected_components G = Inr (sccs, G\<lparr>graph := extend (graph G) pre\<rparr>)"
    and union: "\<Union> (set ` set sccs) = {i. in_range (vertices G) i}"
    and res: "find_minimum_additional_routes G start_airport =
       (case start_scc_of (airports G) start_airport sccs 0 of
          Inl e \<Rightarrow> Inl e
        | Inr start_scc \<Rightarrow>
            Inr (calculate_routes_needed cg start_scc, G\<lparr>graph := extend (graph G) pre\<rparr>))"
    by blast
  from assms(3) union have "v \<in> \<Union> (set ` set sccs)" by (simp add: in_range_def)
  from start_scc_of_found [OF assms(2) this, of 0]
  obtain i where i: "start_scc_of (airports G) start_airport sccs 0 = Inr i"
    "i < length sccs" "v \<in> set (sccs ! i)" by auto
  with run res show ?thesis by simp
qed

theorem start_component_lookup_succeeds_witness:
  "graph_ok two_cycle_graph \<and> map_of (airports two_cycle_graph) ''C'' = Some 2 \<and>
   (0 \<le> (2::int) \<and> (2::int) < int (vertices two_cycle_graph)) \<and>
   (\<exists>sccs G1 i r G2. find_strongly_connected_components two_cycle_graph = Inr (sccs, G1) \<and>
     start_scc_of (airports G1) ''C'' sccs 0 = Inr i \<and>
     i < length sccs \<and> 2 \<in> set (sccs ! i) \<and>
     find_minimum_additional_routes two_cycle_graph ''C'' = Inr (r, G2))"
proof -
  have h1: "graph_ok two_cycle_graph" by code_simp
  have h2: "map_of (airports two_cycle_graph) ''C'' = Some 2" by code_simp
  have h3: "0 \<le> (2::int) \<and> (2::int) < int (vertices two_cycle_graph)" by code_simp
  show ?thesis
    using h1 h2 h3 start_component_lookup_succeeds [OF h1 h2 h3] by blast
qed

lemma add_routes_error:
  "add_routes G routes = Inl e \<Longrightarrow>
   \<exists>l. e = KeyError_label l \<and> map_of (airports G) l = None \<and> l \<in> fst ` set routes \<union> snd ` set routes"
proof (induction routes arbitrary: G)
  case Nil
  then show ?case by simp
next
  case (Cons r routes)
  obtain f t where r: "r = (f, t)" by (cases r)
  show ?case
  proof (cases "map_of (airports G) f")
    case None
    with Cons.prems r show ?thesis by auto
  next
    case (Some fi)
    show ?thesis
    proof (cases "map_of (airports G) t")
      case None
      with Cons.prems r Some show ?thesis by auto
    next
      case (Some ti)
      with Cons.prems r \<open>map_of (airports G) f = Some fi\<close>
      have "add_routes (add_edge G fi ti) routes = Inl e" by simp
      from Cons.IH [OF this] show ?thesis by (auto simp: airports_add_edge)
    qed
  qed
qed

lemma add_routes_unknown:
  "(f, t) \<in> set routes \<Longrightarrow> map_of (airports G) f = None \<or> map_of (airports G) t = None \<Longrightarrow>
   \<exists>e. add_routes G routes = Inl e"
proof (induction routes arbitrary: G)
  case Nil
  then show ?case by simp
next
  case (Cons r routes)
  obtain f' t' where r: "r = (f', t')" by (cases r)
  show ?case
  proof (cases "map_of (airports G) f' = None \<or> map_of (airports G) t' = None")
    case True
    with r show ?thesis by (auto split: option.splits)
  next
    case False
    then obtain fi ti where ft: "map_of (airports G) f' = Some fi" "map_of (airports G) t' = Some ti"
      by auto
    with Cons.prems r have "(f, t) \<in> set routes" by auto
    from Cons.IH [OF this, of "add_edge G fi ti"] Cons.prems(2) r ft
    show ?thesis by (simp add: airports_add_edge)
  qed
qed

text \<open>
  C6, as the code has it. \<open>add_routes\<close> fails exactly when some label of the pairs is not
  registered, and then with the unknown-label error. \<open>find_minimum_additional_routes\<close>
  fails with the unknown-label error for an unregistered start label when the graph has
  at least one vertex and its edges stay inside \<open>[0, N)\<close>; and it never fails with an
  unknown-label error when the start label is registered.
\<close>

theorem unknown_label_errors:
  "((\<exists>l. add_routes G routes = Inl (KeyError_label l)) \<longleftrightarrow>
      (\<exists>(f, t) \<in> set routes. map_of (airports G) f = None \<or> map_of (airports G) t = None)) \<and>
   (\<forall>e. add_routes G routes = Inl e \<longrightarrow> (\<exists>l. e = KeyError_label l)) \<and>
   (graph_ok G \<and> 0 < vertices G \<and> map_of (airports G) start_airport = None \<longrightarrow>
      find_minimum_additional_routes G start_airport = Inl (KeyError_label start_airport)) \<and>
   (map_of (airports G) start_airport \<noteq> None \<longrightarrow>
      find_minimum_additional_routes G start_airport \<noteq> Inl (KeyError_label l'))"
proof (intro conjI allI impI)
  show "(\<exists>l. add_routes G routes = Inl (KeyError_label l)) \<longleftrightarrow>
      (\<exists>(f, t) \<in> set routes. map_of (airports G) f = None \<or> map_of (airports G) t = None)"
  proof
    assume "\<exists>l. add_routes G routes = Inl (KeyError_label l)"
    then obtain l where "add_routes G routes = Inl (KeyError_label l)" ..
    from add_routes_error [OF this]
    have l: "map_of (airports G) l = None" "l \<in> fst ` set routes \<union> snd ` set routes" by auto
    then obtain r where r: "r \<in> set routes" "fst r = l \<or> snd r = l" by auto
    with l(1) have "map_of (airports G) (fst r) = None \<or> map_of (airports G) (snd r) = None"
      by auto
    with r(1) show "\<exists>(f, t) \<in> set routes. map_of (airports G) f = None \<or> map_of (airports G) t = None"
      by (auto simp: case_prod_beta intro!: bexI [of _ r])
  next
    assume "\<exists>(f, t) \<in> set routes. map_of (airports G) f = None \<or> map_of (airports G) t = None"
    then obtain f t where "(f, t) \<in> set routes"
      "map_of (airports G) f = None \<or> map_of (airports G) t = None" by auto
    from add_routes_unknown [OF this] obtain e where e: "add_routes G routes = Inl e" ..
    with add_routes_error [OF e] show "\<exists>l. add_routes G routes = Inl (KeyError_label l)" by auto
  qed
next
  fix e assume "add_routes G routes = Inl e"
  from add_routes_error [OF this] show "\<exists>l. e = KeyError_label l" by blast
next
  assume a: "graph_ok G \<and> 0 < vertices G \<and> map_of (airports G) start_airport = None"
  then have ok: "adjacency_ok (vertices G) (graph G)" by (simp add: graph_ok_def)
  from find_minimum_additional_routes_run [OF ok, of start_airport]
  obtain pre sccs cg where
    union: "\<Union> (set ` set sccs) = {i. in_range (vertices G) i}"
    and res: "find_minimum_additional_routes G start_airport =
       (case start_scc_of (airports G) start_airport sccs 0 of
          Inl e \<Rightarrow> Inl e
        | Inr start_scc \<Rightarrow>
            Inr (calculate_routes_needed cg start_scc, G\<lparr>graph := extend (graph G) pre\<rparr>))"
    by blast
  from a have "in_range (vertices G) 0" by (simp add: in_range_def)
  with union have "sccs \<noteq> []" by auto
  with a have "start_scc_of (airports G) start_airport sccs 0 = Inl (KeyError_label start_airport)"
    by (simp add: start_scc_of_unknown)
  with res show "find_minimum_additional_routes G start_airport = Inl (KeyError_label start_airport)"
    by simp
next
  assume present: "map_of (airports G) start_airport \<noteq> None"
  show "find_minimum_additional_routes G start_airport \<noteq> Inl (KeyError_label l')"
  proof
    assume "find_minimum_additional_routes G start_airport = Inl (KeyError_label l')"
    then consider "find_strongly_connected_components G = Inl (KeyError_label l')"
      | sccs G1 where "build_compressed_graph_from_sccs G1 sccs = Inl (KeyError_label l')"
      | sccs G1 cg G2 where "build_compressed_graph_from_sccs G1 sccs = Inr (cg, G2)"
          "find_strongly_connected_components G = Inr (sccs, G1)"
          "start_scc_of (airports G2) start_airport sccs 0 = Inl (KeyError_label l')"
      unfolding find_minimum_additional_routes_def
      by (auto split: sum.splits prod.splits)
    then show False
    proof cases
      case 1
      then show ?thesis by (auto dest: find_strongly_connected_components_error)
    next
      case 2
      then show ?thesis by (auto dest: build_compressed_graph_error)
    next
      case 3
      from 3(2) have "airports G1 = airports G"
        unfolding find_strongly_connected_components_def
        by (auto split: sum.splits prod.splits simp: transpose_graph_def simp del: second_pass.simps)
      with airports_build_compressed [OF 3(1)] have "airports G2 = airports G" by simp
      with start_scc_of_error [OF 3(3)] present show ?thesis by simp
    qed
  qed
qed

theorem unknown_label_errors_witness:
  "(\<exists>(f, t) \<in> set [(''A'', ''Z'')]. map_of (airports two_cycle_graph) f = None \<or>
       map_of (airports two_cycle_graph) t = None) \<and>
   (\<exists>l. add_routes two_cycle_graph [(''A'', ''Z'')] = Inl (KeyError_label l)) \<and>
   (graph_ok two_cycle_graph \<and> 0 < vertices two_cycle_graph \<and>
      map_of (airports two_cycle_graph) ''Z'' = None) \<and>
   find_minimum_additional_routes two_cycle_graph ''Z'' = Inl (KeyError_label ''Z'') \<and>
   map_of (airports two_cycle_graph) ''A'' \<noteq> None \<and>
   find_minimum_additional_routes two_cycle_graph ''A'' \<noteq> Inl (KeyError_label ''A'')"
proof -
  have h1: "\<exists>(f, t) \<in> set [(''A'', ''Z'')]. map_of (airports two_cycle_graph) f = None \<or>
       map_of (airports two_cycle_graph) t = None" by code_simp
  have h2: "graph_ok two_cycle_graph \<and> 0 < vertices two_cycle_graph \<and>
      map_of (airports two_cycle_graph) ''Z'' = None" by code_simp
  have h3: "map_of (airports two_cycle_graph) ''A'' \<noteq> None" by code_simp
  show ?thesis
    using h1 h2 h3
      unknown_label_errors [of two_cycle_graph "[(''A'', ''Z'')]" "''Z''" "''Z''"]
      unknown_label_errors [of two_cycle_graph "[(''A'', ''Z'')]" "''A''" "''A''"]
    by blast
qed

text \<open>
  C6 as stated fails on a graph without airports: the start label is not registered, yet
  there is no component to examine, the label is never looked up, and the call ends in
  \<open>StopIteration\<close>.
\<close>

theorem unknown_start_label_on_empty_graph:
  "map_of (airports (Graph_init [])) ''DSM'' = None \<and>
   find_minimum_additional_routes (Graph_init []) ''DSM'' = Inl StopIteration"
  by code_simp

section \<open>Repeated invocations\<close>

lemma touched_Nil: "touched g [] = g"
  by (simp add: touched_def)

lemma touched_Cons: "touched g (k # ks) = touched (snd (dd_get g k)) ks"
  by (simp add: touched_def)

lemma touched_append: "touched (touched g ks) ks' = touched g (ks @ ks')"
  by (simp add: touched_def)

lemma adj_touched: "adj (touched g ks) = adj g"
  by (induction ks arbitrary: g) (simp_all add: touched_Nil touched_Cons dd_get_extend adj_extend)

lemma keys_touched: "set (keys (touched g ks)) = set (keys g) \<union> set ks"
  by (induction ks arbitrary: g)
    (auto simp: touched_Nil touched_Cons dd_get_extend keys_extend)

lemma touched_keys: "set ks \<subseteq> set (keys g) \<Longrightarrow> touched g ks = g"
  by (induction ks) (simp_all add: touched_Nil touched_Cons dd_get_extend extend_keys)

lemma depth_first_search_touched:
  "depth_first_search g v vis st = Inr (g', vis', st') \<Longrightarrow>
     \<exists>ks. g' = touched g ks \<and>
       (\<forall>g2. adj g2 = adj g \<longrightarrow> depth_first_search g2 v vis st = Inr (touched g2 ks, vis', st'))"
  "depth_first_search_loop g ns vis st = Inr (g', vis', st') \<Longrightarrow>
     \<exists>ks. g' = touched g ks \<and>
       (\<forall>g2. adj g2 = adj g \<longrightarrow>
          depth_first_search_loop g2 ns vis st = Inr (touched g2 ks, vis', st'))"
proof (induction g v vis st and g ns vis st arbitrary: g' vis' st' and g' vis' st'
    rule: depth_first_search_depth_first_search_loop.induct)
  case (1 g vertex visited stack)
  from "1.prems" obtain visited1 g2 visited2 stack2 where
    set1: "list_set visited vertex True = Inr visited1"
    and loop: "depth_first_search_loop (snd (dd_get g vertex)) (adj g vertex) visited1 stack
               = Inr (g2, visited2, stack2)"
    and res: "g' = g2" "vis' = visited2" "st' = stack2 @ [vertex]"
    by (auto simp: dd_get_extend split: sum.splits)
  from "1.IH" [OF set1 _ loop] obtain ks where
    ks: "g2 = touched (snd (dd_get g vertex)) ks"
    and other: "\<And>g3. adj g3 = adj (snd (dd_get g vertex)) \<Longrightarrow>
       depth_first_search_loop g3 (adj g vertex) visited1 stack = Inr (touched g3 ks, visited2, stack2)"
    by (auto simp: dd_get_extend)
  have "g' = touched g (vertex # ks)" using ks res by (simp add: touched_Cons)
  moreover have "depth_first_search h vertex visited stack = Inr (touched h (vertex # ks), vis', st')"
    if "adj h = adj g" for h
  proof -
    have "adj (snd (dd_get h vertex)) = adj (snd (dd_get g vertex))"
      using that by (simp add: dd_get_extend adj_extend)
    from other [OF this] that set1 res show ?thesis
      by (simp add: dd_get_extend touched_Cons)
  qed
  ultimately show ?case by blast
next
  case (2 g visited stack)
  then have "g' = touched g [] \<and> (\<forall>g2. adj g2 = adj g \<longrightarrow>
      depth_first_search_loop g2 [] visited stack = Inr (touched g2 [], vis', st'))"
    by (simp add: touched_Nil)
  then show ?case by blast
next
  case (3 g neighbor ns visited stack)
  from "3.prems" obtain b where get: "list_get visited neighbor = Inr b"
    by (auto split: sum.splits)
  show ?case
  proof (cases b)
    case True
    with "3.prems" get have "depth_first_search_loop g ns visited stack = Inr (g', vis', st')"
      by simp
    from "3.IH"(3) [OF get _ this] True obtain ks where "g' = touched g ks"
      "\<And>g2. adj g2 = adj g \<Longrightarrow>
         depth_first_search_loop g2 ns visited stack = Inr (touched g2 ks, vis', st')"
      by auto
    with get True show ?thesis by auto
  next
    case False
    with "3.prems" get obtain g1 visited1 stack1 where
      call: "depth_first_search g neighbor visited stack = Inr (g1, visited1, stack1)"
      and rest: "depth_first_search_loop g1 ns visited1 stack1 = Inr (g', vis', st')"
      by (auto split: sum.splits)
    from "3.IH"(1) [OF get False call] obtain ks1 where ks1: "g1 = touched g ks1"
      and other1: "\<And>g2. adj g2 = adj g \<Longrightarrow>
         depth_first_search g2 neighbor visited stack = Inr (touched g2 ks1, visited1, stack1)"
      by auto
    from "3.IH"(2) [OF get False call refl refl rest] obtain ks2 where ks2: "g' = touched g1 ks2"
      and other2: "\<And>g2. adj g2 = adj g1 \<Longrightarrow>
         depth_first_search_loop g2 ns visited1 stack1 = Inr (touched g2 ks2, vis', st')"
      by auto
    have "g' = touched g (ks1 @ ks2)" using ks1 ks2 by (simp add: touched_append)
    moreover have "depth_first_search_loop h (neighbor # ns) visited stack
        = Inr (touched h (ks1 @ ks2), vis', st')" if "adj h = adj g" for h
    proof -
      have "adj (touched h ks1) = adj g1" using that ks1 by (simp add: adj_touched)
      from other2 [OF this] other1 [OF that] get False show ?thesis
        by (simp add: touched_append)
    qed
    ultimately show ?thesis by blast
  qed
qed

lemma compress_keys_same_graph:
  "compress_keys m g ks cg = Inr (g', cg') \<Longrightarrow> set ks \<subseteq> set (keys g) \<Longrightarrow> g' = g"
  using compress_keys_sound [of m g ks cg g' cg' "\<lambda>_ _. True"]
  by (simp add: compressed_sound_def)

text \<open>
  C9. When \<open>find_minimum_additional_routes\<close> returns an integer, calling it again on the
  same object (now holding the keys that the first traversal created) returns the same
  integer and leaves the object as it is, so every further call does too.
\<close>

theorem repeated_invocation_same_result:
  assumes "find_minimum_additional_routes G start_airport = Inr (r, G1)"
  shows "find_minimum_additional_routes G1 start_airport = Inr (r, G1)"
proof -
  let ?N = "vertices G"
  from assms obtain sccs Ga cg where
    scc: "find_strongly_connected_components G = Inr (sccs, Ga)"
    and build: "build_compressed_graph_from_sccs Ga sccs = Inr (cg, G1)"
    and start: "(case start_scc_of (airports G1) start_airport sccs 0 of
          Inl e \<Rightarrow> Inl e
        | Inr start_scc \<Rightarrow> Inr (calculate_routes_needed cg start_scc, G1)) = Inr (r, G1)"
    unfolding find_minimum_additional_routes_def
    by (auto split: sum.splits prod.splits)
  from scc obtain ga vis1 S T t1 vis2 where
    p1: "first_pass (graph G) (map int [0..<?N]) (replicate ?N False) [] = Inr (ga, vis1, S)"
    and tg: "transpose_graph (G\<lparr>graph := ga\<rparr>) = (Ga, T)"
    and p2: "second_pass (graph T) S (replicate ?N False) [] = Inr (t1, vis2, sccs)"
    unfolding find_strongly_connected_components_def
    by (auto split: sum.splits prod.splits simp del: second_pass.simps)
  from tg transpose_graph_self [of "G\<lparr>graph := ga\<rparr>"] have Ga: "Ga = G\<lparr>graph := ga\<rparr>" by simp
  from build obtain g2 where ck: "compress_keys (scc_map_of sccs) (graph Ga) (keys (graph Ga)) []
      = Inr (g2, cg)" and G1: "G1 = Ga\<lparr>graph := g2\<rparr>"
    unfolding build_compressed_graph_from_sccs_def by (auto split: sum.splits prod.splits)
  from compress_keys_same_graph [OF ck] have "g2 = graph Ga" by simp
  with G1 Ga have G1': "G1 = G\<lparr>graph := ga\<rparr>" by simp
  from p1 have "depth_first_search_loop (graph G) (map int [0..<?N]) (replicate ?N False) []
      = Inr (ga, vis1, S)" by (simp add: first_pass_loop)
  from depth_first_search_touched(2) [OF this] obtain ks where ks: "ga = touched (graph G) ks"
    and other: "\<And>g2. adj g2 = adj (graph G) \<Longrightarrow>
       depth_first_search_loop g2 (map int [0..<?N]) (replicate ?N False) []
         = Inr (touched g2 ks, vis1, S)"
    by auto
  have "touched ga ks = ga" using ks by (intro touched_keys) (simp add: keys_touched)
  with other [of ga] ks have p1': "first_pass (graph G1) (map int [0..<vertices G1])
      (replicate (vertices G1) False) [] = Inr (ga, vis1, S)"
    by (simp add: first_pass_loop adj_touched G1')
  have same: "G1\<lparr>graph := ga\<rparr> = G1" by (simp add: G1')
  have scc': "find_strongly_connected_components G1 = Inr (sccs, G1)"
    unfolding find_strongly_connected_components_def
    using p1' tg p2 Ga G1' by (simp add: same del: second_pass.simps)
  from build Ga G1' have build': "build_compressed_graph_from_sccs G1 sccs = Inr (cg, G1)"
    by simp
  show ?thesis
    unfolding find_minimum_additional_routes_def
    using scc' build' start by simp
qed

theorem repeated_invocation_same_result_witness:
  "find_minimum_additional_routes two_cycle_graph ''C''
     = Inr (1, \<lparr>airports = [(''A'', 0), (''B'', 1), (''C'', 2)], vertices = 3,
                graph = [(0, [1]), (1, [0, 2]), (2, [])]\<rparr>) \<and>
   find_minimum_additional_routes
     \<lparr>airports = [(''A'', 0), (''B'', 1), (''C'', 2)], vertices = 3,
      graph = [(0, [1]), (1, [0, 2]), (2, [])]\<rparr> ''C''
     = Inr (1, \<lparr>airports = [(''A'', 0), (''B'', 1), (''C'', 2)], vertices = 3,
                graph = [(0, [1]), (1, [0, 2]), (2, [])]\<rparr>)"
proof -
  have h: "find_minimum_additional_routes two_cycle_graph ''C''
     = Inr (1, \<lparr>airports = [(''A'', 0), (''B'', 1), (''C'', 2)], vertices = 3,
                graph = [(0, [1]), (1, [0, 2]), (2, [])]\<rparr>)"
    by code_simp
  show ?thesis using h repeated_invocation_same_result [OF h] by simp
qed

section \<open>A duplicated edge\<close>

text \<open>
  A neighbour that stands a second time in an adjacency list is already marked when the
  loop comes to it. This holds for the functions as they are, on every graph and every
  \<open>visited\<close> list, whether the traversal returns or raises.
\<close>

subsection \<open>Marks are kept\<close>

lemma list_set_marks:
  assumes "list_set vis v True = Inr vis1"
  shows "list_get vis1 v = Inr True"
    and "list_get vis n = Inr True \<Longrightarrow> list_get vis1 n = Inr True"
proof -
  from assms obtain k where k: "py_index (length vis) v = Some k" and vis1: "vis1 = vis[k := True]"
    by (auto simp: list_set_def split: option.splits)
  from k have kl: "k < length vis" by (rule py_index_less)
  with k vis1 show "list_get vis1 v = Inr True" by (simp add: list_get_def)
  assume "list_get vis n = Inr True"
  then obtain j where j: "py_index (length vis) n = Some j" and "vis ! j"
    by (auto simp: list_get_def split: option.splits)
  with vis1 kl show "list_get vis1 n = Inr True"
    by (cases "j = k") (simp_all add: list_get_def)
qed

lemma depth_first_search_marks:
  "depth_first_search g v vis st = Inr (g', vis', st') \<Longrightarrow>
     list_get vis' v = Inr True \<and> (\<forall>n. list_get vis n = Inr True \<longrightarrow> list_get vis' n = Inr True)"
  "depth_first_search_loop g ns vis st = Inr (g', vis', st') \<Longrightarrow>
     (\<forall>n. list_get vis n = Inr True \<longrightarrow> list_get vis' n = Inr True)"
proof (induction g v vis st and g ns vis st arbitrary: g' vis' st' and g' vis' st'
    rule: depth_first_search_depth_first_search_loop.induct)
  case (1 g vertex visited stack)
  from "1.prems" obtain visited1 g2 stack2 where
    set1: "list_set visited vertex True = Inr visited1"
    and loop: "depth_first_search_loop (snd (dd_get g vertex)) (fst (dd_get g vertex)) visited1 stack
               = Inr (g2, vis', stack2)"
    by (auto split: sum.splits prod.splits)
  from "1.IH" [OF set1 _ loop] have "\<forall>n. list_get visited1 n = Inr True \<longrightarrow> list_get vis' n = Inr True"
    by simp
  with list_set_marks [OF set1] show ?case by blast
next
  case (2 g visited stack)
  then show ?case by simp
next
  case (3 g neighbor ns visited stack)
  from "3.prems" obtain b where get: "list_get visited neighbor = Inr b"
    by (auto split: sum.splits)
  show ?case
  proof (cases b)
    case True
    with "3.prems" get have "depth_first_search_loop g ns visited stack = Inr (g', vis', st')"
      by simp
    from "3.IH"(3) [OF get _ this] True show ?thesis by simp
  next
    case False
    with "3.prems" get obtain g1 visited1 stack1 where
      call: "depth_first_search g neighbor visited stack = Inr (g1, visited1, stack1)"
      and rest: "depth_first_search_loop g1 ns visited1 stack1 = Inr (g', vis', st')"
      by (auto split: sum.splits)
    from "3.IH"(1) [OF get False call] "3.IH"(2) [OF get False call refl refl rest]
    show ?thesis by blast
  qed
qed

lemma depth_first_search_loop_insert_seen:
  "n \<in> set xs \<or> list_get vis n = Inr True \<Longrightarrow>
   depth_first_search_loop g (xs @ n # ys) vis st = depth_first_search_loop g (xs @ ys) vis st"
proof (induction xs arbitrary: g vis st)
  case Nil
  then show ?case by simp
next
  case (Cons a xs)
  show ?case
  proof (cases "list_get vis a")
    case (Inl e)
    then show ?thesis by simp
  next
    case (Inr b)
    show ?thesis
    proof (cases b)
      case True
      with Inr Cons.prems have "n \<in> set xs \<or> list_get vis n = Inr True" by auto
      from Cons.IH [OF this] Inr True show ?thesis by simp
    next
      case False
      show ?thesis
      proof (cases "depth_first_search g a vis st")
        case (Inl e)
        with \<open>list_get vis a = Inr b\<close> False show ?thesis by simp
      next
        case (Inr r)
        obtain g1 vis1 st1 where r: "r = (g1, vis1, st1)" by (cases r)
        from depth_first_search_marks(1) [OF Inr [unfolded r]] Cons.prems
        have "n \<in> set xs \<or> list_get vis1 n = Inr True" by auto
        from Cons.IH [OF this] Inr r \<open>list_get vis a = Inr b\<close> False show ?thesis by simp
      qed
    qed
  qed
qed


lemma same_first_visits_loop:
  assumes "same_first_visits nb nb'"
    and "\<And>xs n ys. n \<in> set xs \<Longrightarrow> f (xs @ n # ys) = f (xs @ ys)"
  shows "f (nb' w) = f (nb w)"
proof -
  from assms(1) have "nb' w = nb w \<or>
      (\<exists>xs n ys. nb w = xs @ ys \<and> nb' w = xs @ n # ys \<and> n \<in> set xs)"
    by (simp add: same_first_visits_def)
  then show ?thesis
  proof
    assume "nb' w = nb w"
    then show ?thesis by simp
  next
    assume "\<exists>xs n ys. nb w = xs @ ys \<and> nb' w = xs @ n # ys \<and> n \<in> set xs"
    then obtain xs n ys where "nb w = xs @ ys" "nb' w = xs @ n # ys" "n \<in> set xs" by blast
    with assms(2) [of n xs ys] show ?thesis by simp
  qed
qed

lemma depth_first_search_same_first_visits:
  "same_first_visits (adj g) (adj h) \<Longrightarrow>
     (\<forall>e. depth_first_search g v vis st = Inl e \<longrightarrow> depth_first_search h v vis st = Inl e) \<and>
     (\<forall>g' vis' st'. depth_first_search g v vis st = Inr (g', vis', st') \<longrightarrow>
        (\<exists>ks. g' = touched g ks \<and> depth_first_search h v vis st = Inr (touched h ks, vis', st')))"
  "same_first_visits (adj g) (adj h) \<Longrightarrow>
     (\<forall>e. depth_first_search_loop g ns vis st = Inl e \<longrightarrow>
        depth_first_search_loop h ns vis st = Inl e) \<and>
     (\<forall>g' vis' st'. depth_first_search_loop g ns vis st = Inr (g', vis', st') \<longrightarrow>
        (\<exists>ks. g' = touched g ks \<and>
           depth_first_search_loop h ns vis st = Inr (touched h ks, vis', st')))"
proof (induction g v vis st and g ns vis st arbitrary: h and h
    rule: depth_first_search_depth_first_search_loop.induct)
  case (1 g vertex visited stack)
  show ?case
  proof (cases "list_set visited vertex True")
    case (Inl e)
    then show ?thesis by simp
  next
    case (Inr visited1)
    let ?g1 = "extend g [vertex]" and ?h1 = "extend h [vertex]"
    have sfv1: "same_first_visits (adj ?g1) (adj ?h1)"
      using "1.prems" by (simp add: adj_extend)
    have ins: "depth_first_search_loop ?h1 (adj h vertex) visited1 stack
        = depth_first_search_loop ?h1 (adj g vertex) visited1 stack"
      using "1.prems" by (rule same_first_visits_loop) (simp add: depth_first_search_loop_insert_seen)
    have g: "depth_first_search g vertex visited stack =
        (case depth_first_search_loop ?g1 (adj g vertex) visited1 stack of
           Inl e \<Rightarrow> Inl e
         | Inr (g2, visited2, stack2) \<Rightarrow> Inr (g2, visited2, stack2 @ [vertex]))"
      using Inr by (simp add: dd_get_extend)
    have h: "depth_first_search h vertex visited stack =
        (case depth_first_search_loop ?h1 (adj g vertex) visited1 stack of
           Inl e \<Rightarrow> Inl e
         | Inr (g2, visited2, stack2) \<Rightarrow> Inr (g2, visited2, stack2 @ [vertex]))"
      using Inr ins by (simp add: dd_get_extend)
    have IH: "(\<forall>e. depth_first_search_loop ?g1 (adj g vertex) visited1 stack = Inl e \<longrightarrow>
          depth_first_search_loop ?h1 (adj g vertex) visited1 stack = Inl e) \<and>
       (\<forall>g' vis' st'. depth_first_search_loop ?g1 (adj g vertex) visited1 stack = Inr (g', vis', st') \<longrightarrow>
          (\<exists>ks. g' = touched ?g1 ks \<and>
             depth_first_search_loop ?h1 (adj g vertex) visited1 stack = Inr (touched ?h1 ks, vis', st')))"
      using "1.IH" [OF Inr _ sfv1, of "adj g vertex"] by (simp add: dd_get_extend)
    show ?thesis
    proof (cases "depth_first_search_loop ?g1 (adj g vertex) visited1 stack")
      case (Inl e)
      with IH have "depth_first_search_loop ?h1 (adj g vertex) visited1 stack = Inl e" by blast
      with Inl g h show ?thesis by simp
    next
      case (Inr r)
      obtain g2 visited2 stack2 where r: "r = (g2, visited2, stack2)" by (cases r)
      from IH Inr r obtain ks where ks: "g2 = touched ?g1 ks"
        and run: "depth_first_search_loop ?h1 (adj g vertex) visited1 stack
            = Inr (touched ?h1 ks, visited2, stack2)"
        by blast
      have "g2 = touched g (vertex # ks)" "touched ?h1 ks = touched h (vertex # ks)"
        using ks by (simp_all add: touched_Cons dd_get_extend)
      with Inr r run g h show ?thesis by auto
    qed
  qed
next
  case (2 g visited stack)
  have "g = touched g [] \<and> depth_first_search_loop h [] visited stack = Inr (touched h [], visited, stack)"
    by (simp add: touched_Nil)
  then show ?case by auto
next
  case (3 g neighbor ns visited stack)
  show ?case
  proof (cases "list_get visited neighbor")
    case (Inl e)
    then show ?thesis by simp
  next
    case (Inr b)
    show ?thesis
    proof (cases b)
      case True
      from "3.IH"(3) [OF Inr _ "3.prems"] Inr True show ?thesis by simp
    next
      case False
      note IH1 = "3.IH"(1) [OF Inr False "3.prems"]
      show ?thesis
      proof (cases "depth_first_search g neighbor visited stack")
        case (Inl e)
        with IH1 have "depth_first_search h neighbor visited stack = Inl e" by blast
        with Inl \<open>list_get visited neighbor = Inr b\<close> False show ?thesis by simp
      next
        case (Inr r)
        obtain g1 visited1 stack1 where r: "r = (g1, visited1, stack1)" by (cases r)
        from IH1 Inr r obtain ks1 where ks1: "g1 = touched g ks1"
          and run1: "depth_first_search h neighbor visited stack = Inr (touched h ks1, visited1, stack1)"
          by blast
        have sfv1: "same_first_visits (adj g1) (adj (touched h ks1))"
          using "3.prems" ks1 by (simp add: adj_touched)
        note IH2 = "3.IH"(2) [OF \<open>list_get visited neighbor = Inr b\<close> False Inr [unfolded r] refl refl sfv1]
        have g: "depth_first_search_loop g (neighbor # ns) visited stack
            = depth_first_search_loop g1 ns visited1 stack1"
          using \<open>list_get visited neighbor = Inr b\<close> False Inr r by simp
        have h: "depth_first_search_loop h (neighbor # ns) visited stack
            = depth_first_search_loop (touched h ks1) ns visited1 stack1"
          using \<open>list_get visited neighbor = Inr b\<close> False run1 by simp
        show ?thesis
        proof (cases "depth_first_search_loop g1 ns visited1 stack1")
          case (Inl e)
          with IH2 have "depth_first_search_loop (touched h ks1) ns visited1 stack1 = Inl e"
            by blast
          with Inl show ?thesis unfolding g h by simp
        next
          case (Inr r2)
          obtain g2 visited2 stack2 where r2: "r2 = (g2, visited2, stack2)" by (cases r2)
          from IH2 Inr r2 obtain ks2 where ks2: "g2 = touched g1 ks2"
            and run2: "depth_first_search_loop (touched h ks1) ns visited1 stack1
                = Inr (touched (touched h ks1) ks2, visited2, stack2)"
            by blast
          have "g2 = touched g (ks1 @ ks2)" using ks1 ks2 by (simp add: touched_append)
          with Inr r2 run2 show ?thesis unfolding g h by (auto simp: touched_append)
        qed
      qed
    qed
  qed
qed


lemma depth_first_search_transposed_marks:
  "depth_first_search_transposed g v vis st = Inr (g', vis', st') \<Longrightarrow>
     list_get vis' v = Inr True \<and> (\<forall>n. list_get vis n = Inr True \<longrightarrow> list_get vis' n = Inr True)"
  "depth_first_search_transposed_loop g ns vis st = Inr (g', vis', st') \<Longrightarrow>
     (\<forall>n. list_get vis n = Inr True \<longrightarrow> list_get vis' n = Inr True)"
proof (induction g v vis st and g ns vis st arbitrary: g' vis' st' and g' vis' st'
    rule: depth_first_search_transposed_depth_first_search_transposed_loop.induct)
  case (1 g vertex visited component)
  from "1.prems" obtain visited1 where
    set1: "list_set visited vertex True = Inr visited1"
    and loop: "depth_first_search_transposed_loop (snd (dd_get g vertex)) (fst (dd_get g vertex))
               visited1 (component @ [vertex]) = Inr (g', vis', st')"
    by (auto split: sum.splits prod.splits)
  from "1.IH" [OF set1 _ loop] have "\<forall>n. list_get visited1 n = Inr True \<longrightarrow> list_get vis' n = Inr True"
    by simp
  with list_set_marks [OF set1] show ?case by blast
next
  case (2 g visited component)
  then show ?case by simp
next
  case (3 g neighbor ns visited component)
  from "3.prems" obtain b where get: "list_get visited neighbor = Inr b"
    by (auto split: sum.splits)
  show ?case
  proof (cases b)
    case True
    with "3.prems" get
    have "depth_first_search_transposed_loop g ns visited component = Inr (g', vis', st')"
      by simp
    from "3.IH"(3) [OF get _ this] True show ?thesis by simp
  next
    case False
    with "3.prems" get obtain g1 visited1 component1 where
      call: "depth_first_search_transposed g neighbor visited component = Inr (g1, visited1, component1)"
      and rest: "depth_first_search_transposed_loop g1 ns visited1 component1 = Inr (g', vis', st')"
      by (auto split: sum.splits)
    from "3.IH"(1) [OF get False call] "3.IH"(2) [OF get False call refl refl rest]
    show ?thesis by blast
  qed
qed

lemma depth_first_search_transposed_loop_insert_seen:
  "n \<in> set xs \<or> list_get vis n = Inr True \<Longrightarrow>
   depth_first_search_transposed_loop g (xs @ n # ys) vis st
     = depth_first_search_transposed_loop g (xs @ ys) vis st"
proof (induction xs arbitrary: g vis st)
  case Nil
  then show ?case by simp
next
  case (Cons a xs)
  show ?case
  proof (cases "list_get vis a")
    case (Inl e)
    then show ?thesis by simp
  next
    case (Inr b)
    show ?thesis
    proof (cases b)
      case True
      with Inr Cons.prems have "n \<in> set xs \<or> list_get vis n = Inr True" by auto
      from Cons.IH [OF this] Inr True show ?thesis by simp
    next
      case False
      show ?thesis
      proof (cases "depth_first_search_transposed g a vis st")
        case (Inl e)
        with \<open>list_get vis a = Inr b\<close> False show ?thesis by simp
      next
        case (Inr r)
        obtain g1 vis1 st1 where r: "r = (g1, vis1, st1)" by (cases r)
        from depth_first_search_transposed_marks(1) [OF Inr [unfolded r]] Cons.prems
        have "n \<in> set xs \<or> list_get vis1 n = Inr True" by auto
        from Cons.IH [OF this] Inr r \<open>list_get vis a = Inr b\<close> False show ?thesis by simp
      qed
    qed
  qed
qed

lemma depth_first_search_transposed_same_first_visits:
  "same_first_visits (adj g) (adj h) \<Longrightarrow>
     (\<forall>e. depth_first_search_transposed g v vis st = Inl e \<longrightarrow>
        depth_first_search_transposed h v vis st = Inl e) \<and>
     (\<forall>g' vis' st'. depth_first_search_transposed g v vis st = Inr (g', vis', st') \<longrightarrow>
        (\<exists>ks. g' = touched g ks \<and>
           depth_first_search_transposed h v vis st = Inr (touched h ks, vis', st')))"
  "same_first_visits (adj g) (adj h) \<Longrightarrow>
     (\<forall>e. depth_first_search_transposed_loop g ns vis st = Inl e \<longrightarrow>
        depth_first_search_transposed_loop h ns vis st = Inl e) \<and>
     (\<forall>g' vis' st'. depth_first_search_transposed_loop g ns vis st = Inr (g', vis', st') \<longrightarrow>
        (\<exists>ks. g' = touched g ks \<and>
           depth_first_search_transposed_loop h ns vis st = Inr (touched h ks, vis', st')))"
proof (induction g v vis st and g ns vis st arbitrary: h and h
    rule: depth_first_search_transposed_depth_first_search_transposed_loop.induct)
  case (1 g vertex visited component)
  show ?case
  proof (cases "list_set visited vertex True")
    case (Inl e)
    then show ?thesis by simp
  next
    case (Inr visited1)
    let ?g1 = "extend g [vertex]" and ?h1 = "extend h [vertex]"
    let ?c = "component @ [vertex]"
    have sfv1: "same_first_visits (adj ?g1) (adj ?h1)"
      using "1.prems" by (simp add: adj_extend)
    have ins: "depth_first_search_transposed_loop ?h1 (adj h vertex) visited1 ?c
        = depth_first_search_transposed_loop ?h1 (adj g vertex) visited1 ?c"
      using "1.prems"
      by (rule same_first_visits_loop) (simp add: depth_first_search_transposed_loop_insert_seen)
    have g: "depth_first_search_transposed g vertex visited component =
        depth_first_search_transposed_loop ?g1 (adj g vertex) visited1 ?c"
      using Inr by (simp add: dd_get_extend)
    have h: "depth_first_search_transposed h vertex visited component =
        depth_first_search_transposed_loop ?h1 (adj g vertex) visited1 ?c"
      using Inr ins by (simp add: dd_get_extend)
    have IH: "(\<forall>e. depth_first_search_transposed_loop ?g1 (adj g vertex) visited1 ?c = Inl e \<longrightarrow>
          depth_first_search_transposed_loop ?h1 (adj g vertex) visited1 ?c = Inl e) \<and>
       (\<forall>g' vis' st'. depth_first_search_transposed_loop ?g1 (adj g vertex) visited1 ?c
            = Inr (g', vis', st') \<longrightarrow>
          (\<exists>ks. g' = touched ?g1 ks \<and>
             depth_first_search_transposed_loop ?h1 (adj g vertex) visited1 ?c
               = Inr (touched ?h1 ks, vis', st')))"
      using "1.IH" [OF Inr _ sfv1, of "adj g vertex"] by (simp add: dd_get_extend)
    show ?thesis
    proof (cases "depth_first_search_transposed_loop ?g1 (adj g vertex) visited1 ?c")
      case (Inl e)
      with IH have "depth_first_search_transposed_loop ?h1 (adj g vertex) visited1 ?c = Inl e"
        by blast
      with Inl show ?thesis unfolding g h by simp
    next
      case (Inr r)
      obtain g2 visited2 component2 where r: "r = (g2, visited2, component2)" by (cases r)
      from IH Inr r obtain ks where ks: "g2 = touched ?g1 ks"
        and run: "depth_first_search_transposed_loop ?h1 (adj g vertex) visited1 ?c
            = Inr (touched ?h1 ks, visited2, component2)"
        by blast
      have "g2 = touched g (vertex # ks)" "touched ?h1 ks = touched h (vertex # ks)"
        using ks by (simp_all add: touched_Cons dd_get_extend)
      with Inr r run show ?thesis unfolding g h by auto
    qed
  qed
next
  case (2 g visited component)
  have "g = touched g [] \<and>
      depth_first_search_transposed_loop h [] visited component = Inr (touched h [], visited, component)"
    by (simp add: touched_Nil)
  then show ?case by auto
next
  case (3 g neighbor ns visited component)
  show ?case
  proof (cases "list_get visited neighbor")
    case (Inl e)
    then show ?thesis by simp
  next
    case (Inr b)
    show ?thesis
    proof (cases b)
      case True
      from "3.IH"(3) [OF Inr _ "3.prems"] Inr True show ?thesis by simp
    next
      case False
      note IH1 = "3.IH"(1) [OF Inr False "3.prems"]
      show ?thesis
      proof (cases "depth_first_search_transposed g neighbor visited component")
        case (Inl e)
        with IH1 have "depth_first_search_transposed h neighbor visited component = Inl e" by blast
        with Inl \<open>list_get visited neighbor = Inr b\<close> False show ?thesis by simp
      next
        case (Inr r)
        obtain g1 visited1 component1 where r: "r = (g1, visited1, component1)" by (cases r)
        from IH1 Inr r obtain ks1 where ks1: "g1 = touched g ks1"
          and run1: "depth_first_search_transposed h neighbor visited component
              = Inr (touched h ks1, visited1, component1)"
          by blast
        have sfv1: "same_first_visits (adj g1) (adj (touched h ks1))"
          using "3.prems" ks1 by (simp add: adj_touched)
        note IH2 = "3.IH"(2) [OF \<open>list_get visited neighbor = Inr b\<close> False Inr [unfolded r] refl refl sfv1]
        have g: "depth_first_search_transposed_loop g (neighbor # ns) visited component
            = depth_first_search_transposed_loop g1 ns visited1 component1"
          using \<open>list_get visited neighbor = Inr b\<close> False Inr r by simp
        have h: "depth_first_search_transposed_loop h (neighbor # ns) visited component
            = depth_first_search_transposed_loop (touched h ks1) ns visited1 component1"
          using \<open>list_get visited neighbor = Inr b\<close> False run1 by simp
        show ?thesis
        proof (cases "depth_first_search_transposed_loop g1 ns visited1 component1")
          case (Inl e)
          with IH2
          have "depth_first_search_transposed_loop (touched h ks1) ns visited1 component1 = Inl e"
            by blast
          with Inl show ?thesis unfolding g h by simp
        next
          case (Inr r2)
          obtain g2 visited2 component2 where r2: "r2 = (g2, visited2, component2)" by (cases r2)
          from IH2 Inr r2 obtain ks2 where ks2: "g2 = touched g1 ks2"
            and run2: "depth_first_search_transposed_loop (touched h ks1) ns visited1 component1
                = Inr (touched (touched h ks1) ks2, visited2, component2)"
            by blast
          have "g2 = touched g (ks1 @ ks2)" using ks1 ks2 by (simp add: touched_append)
          with Inr r2 run2 show ?thesis unfolding g h by (auto simp: touched_append)
        qed
      qed
    qed
  qed
qed

lemma second_pass_same_first_visits:
  "same_first_visits (adj t) (adj t') \<Longrightarrow>
   map_sum id (\<lambda>(t1, vis1, sccs1). (vis1, sccs1)) (second_pass t' stack vis sccs)
     = map_sum id (\<lambda>(t1, vis1, sccs1). (vis1, sccs1)) (second_pass t stack vis sccs)"
proof (induction stack arbitrary: t t' vis sccs rule: rev_induct)
  case Nil
  then show ?case by (simp add: second_pass_Nil del: second_pass.simps)
next
  case (snoc x stack)
  show ?case
  proof (cases "list_get vis x")
    case (Inl e)
    then show ?thesis by (simp add: second_pass_snoc del: second_pass.simps)
  next
    case (Inr b)
    show ?thesis
    proof (cases b)
      case True
      with Inr snoc.IH [OF snoc.prems] show ?thesis
        by (simp add: second_pass_snoc del: second_pass.simps)
    next
      case False
      note rel = depth_first_search_transposed_same_first_visits(1) [OF snoc.prems, of x vis "[]"]
      show ?thesis
      proof (cases "depth_first_search_transposed t x vis []")
        case (Inl e)
        with rel have "depth_first_search_transposed t' x vis [] = Inl e" by blast
        with Inl Inr False show ?thesis
          by (simp add: second_pass_snoc del: second_pass.simps depth_first_search_transposed.simps)
      next
        case (Inr r)
        obtain t1 vis1 c where r: "r = (t1, vis1, c)" by (cases r)
        from rel Inr r obtain ks where ks: "t1 = touched t ks"
          and run': "depth_first_search_transposed t' x vis [] = Inr (touched t' ks, vis1, c)"
          by blast
        have "same_first_visits (adj t1) (adj (touched t' ks))"
          using snoc.prems ks by (simp add: adj_touched)
        from snoc.IH [OF this, of vis1 "sccs @ [c]"] Inr r run' \<open>list_get vis x = Inr b\<close> False
        show ?thesis
          by (simp add: second_pass_snoc del: second_pass.simps depth_first_search_transposed.simps)
      qed
    qed
  qed
qed


subsection \<open>The transposed graph with one more parallel edge\<close>

lemma update_append_key:
  "k \<in> fst ` set g \<Longrightarrow> AList.update k x (g @ h) = AList.update k x g @ h"
  by (induction g) auto

lemma extend_update:
  "k \<in> set (keys g) \<Longrightarrow> extend (AList.update k x g) ks = AList.update k x (extend g ks)"
  by (simp add: extend_def update_append_key keys_def dom_update insert_absorb)

lemma sources_duplicate_edge:
  assumes d: "distinct (keys g)" and v: "v \<in> set (adj g u)"
  shows "same_first_visits (sources g) (sources (AList.update u (adj g u @ [v]) g))"
proof -
  let ?g' = "AList.update u (adj g u @ [v]) g"
  from v have "adj g u \<noteq> []" by auto
  then have u: "u \<in> set (keys g)" by (rule adj_nonempty_key)
  then obtain ks1 ks2 where ks: "keys g = ks1 @ u # ks2" by (auto dest: split_list)
  with d have notin: "u \<notin> set ks1" "u \<notin> set ks2" by auto
  have keys': "keys ?g' = keys g" using u by (simp add: keys_update)
  have adj': "adj ?g' = (adj g)(u := adj g u @ [v])" by (rule adj_update)
  have "sources ?g' w = sources g w \<or>
      (\<exists>xs n ys. sources g w = xs @ ys \<and> sources ?g' w = xs @ n # ys \<and> n \<in> set xs)" for w
  proof -
    let ?F = "\<lambda>k. map (\<lambda>_. k) (filter (\<lambda>t. t = w) (adj g k))"
    let ?F' = "\<lambda>k. map (\<lambda>_. k) (filter (\<lambda>t. t = w) (adj ?g' k))"
    have 1: "map ?F' ks1 = map ?F ks1" using notin(1) by (intro map_cong) (auto simp: adj')
    have 2: "map ?F' ks2 = map ?F ks2" using notin(2) by (intro map_cong) (auto simp: adj')
    have src: "sources g w = concat (map ?F ks1) @ ?F u @ concat (map ?F ks2)"
      by (simp add: sources_def ks)
    have src': "sources ?g' w = concat (map ?F ks1) @ ?F' u @ concat (map ?F ks2)"
      by (simp add: sources_def keys' ks 1 2)
    show ?thesis
    proof (cases "w = v")
      case False
      then have "?F' u = ?F u" by (simp add: adj')
      with src src' show ?thesis by simp
    next
      case True
      then have blk: "?F' u = ?F u @ [u]" by (simp add: adj')
      from True v have "filter (\<lambda>t. t = w) (adj g u) \<noteq> []" by (auto simp: filter_empty_conv)
      then have "u \<in> set (?F u)" by (cases "filter (\<lambda>t. t = w) (adj g u)") auto
      then have "u \<in> set (concat (map ?F ks1) @ ?F u)" by simp
      moreover have "sources g w = (concat (map ?F ks1) @ ?F u) @ concat (map ?F ks2)"
        using src by simp
      moreover have "sources ?g' w = (concat (map ?F ks1) @ ?F u) @ u # concat (map ?F ks2)"
        using src' blk by simp
      ultimately show ?thesis by blast
    qed
  qed
  then show ?thesis unfolding same_first_visits_def by blast
qed

subsection \<open>The condensed graph with one more parallel edge\<close>

lemma set_set_add: "set (set_add x s) = insert x (set s)"
  by (auto simp: set_add_def)

lemma compressed_add_idem: "j \<in> set (adj cg i) \<Longrightarrow> compressed_add cg i j = cg"
proof -
  assume j: "j \<in> set (adj cg i)"
  then obtain s where s: "map_of cg i = Some s" "adj cg i = s"
    by (cases "map_of cg i") (auto simp: adj_def)
  with j have "set_add j (adj cg i) = s" by (simp add: set_add_def)
  with s show ?thesis by (simp add: compressed_add_update update_triv)
qed

lemma compress_edges_append:
  "compress_edges m f (ns @ ns') cg =
     (case compress_edges m f ns cg of Inl e \<Rightarrow> Inl e | Inr cg1 \<Rightarrow> compress_edges m f ns' cg1)"
  by (induction ns arbitrary: cg) (auto split: option.splits)

lemma compress_edges_keeps:
  "compress_edges m f ns cg = Inr cg1 \<Longrightarrow> j \<in> set (adj cg i) \<Longrightarrow> j \<in> set (adj cg1 i)"
proof (induction ns arbitrary: cg)
  case Nil
  then show ?case by simp
next
  case (Cons t ns)
  from Cons.prems(1) obtain a b where ab: "m f = Some a" "m t = Some b"
    by (auto split: option.splits)
  have "j \<in> set (adj (compressed_add cg a b) i)"
    using Cons.prems(2) by (auto simp: compressed_add_update adj_update set_set_add)
  with Cons.IH [of "compressed_add cg a b"] Cons.IH [of cg] Cons.prems ab show ?case
    by (cases "a = b") simp_all
qed

lemma compress_edges_recorded:
  "compress_edges m f ns cg = Inr cg1 \<Longrightarrow> t \<in> set ns \<Longrightarrow>
   \<exists>i j. m f = Some i \<and> m t = Some j \<and> (i \<noteq> j \<longrightarrow> j \<in> set (adj cg1 i))"
proof (induction ns arbitrary: cg)
  case Nil
  then show ?case by simp
next
  case (Cons t' ns)
  from Cons.prems(1) obtain a b where ab: "m f = Some a" "m t' = Some b"
    by (auto split: option.splits)
  let ?cg = "if a \<noteq> b then compressed_add cg a b else cg"
  from Cons.prems(1) ab have rest: "compress_edges m f ns ?cg = Inr cg1"
    by (auto split: if_splits)
  show ?case
  proof (cases "t = t'")
    case True
    have "a \<noteq> b \<longrightarrow> b \<in> set (adj ?cg a)"
      by (simp add: compressed_add_update adj_update set_set_add)
    with compress_edges_keeps [OF rest, of b a] ab True show ?thesis by auto
  next
    case False
    with Cons.prems(2) have "t \<in> set ns" by simp
    from Cons.IH [OF rest this] show ?thesis .
  qed
qed

lemma compress_edges_duplicate:
  "t \<in> set ns \<Longrightarrow> compress_edges m f (ns @ [t]) cg = compress_edges m f ns cg"
proof (cases "compress_edges m f ns cg")
  case (Inl e)
  then show ?thesis by (simp add: compress_edges_append)
next
  case (Inr cg1)
  assume "t \<in> set ns"
  from compress_edges_recorded [OF Inr this] obtain i j where
    "m f = Some i" "m t = Some j" "i \<noteq> j \<longrightarrow> j \<in> set (adj cg1 i)" by blast
  then have "compress_edges m f [t] cg1 = Inr cg1" by (simp add: compressed_add_idem)
  with Inr show ?thesis by (simp add: compress_edges_append)
qed

lemma compress_keys_cong:
  "\<forall>k \<in> set ks. \<forall>cg. compress_edges m k (adj g' k) cg = compress_edges m k (adj g k) cg \<Longrightarrow>
   set ks \<subseteq> set (keys g) \<Longrightarrow> set ks \<subseteq> set (keys g') \<Longrightarrow>
   map_sum id snd (compress_keys m g' ks cg) = map_sum id snd (compress_keys m g ks cg)"
proof (induction ks arbitrary: cg)
  case Nil
  then show ?case by simp
next
  case (Cons k ks)
  have k: "dd_get g k = (adj g k, g)" "dd_get g' k = (adj g' k, g')"
    using Cons.prems(2,3) by (simp_all add: dd_get_extend extend_keys)
  have e: "compress_edges m k (adj g' k) cg = compress_edges m k (adj g k) cg"
    using Cons.prems(1) by simp
  show ?case
  proof (cases "compress_edges m k (adj g k) cg")
    case (Inl err)
    with k e show ?thesis by simp
  next
    case (Inr cg1)
    with k e Cons.IH [of cg1] Cons.prems show ?thesis by simp
  qed
qed

lemma distinct_keys_extend:
  "distinct (keys g) \<Longrightarrow> distinct ks \<Longrightarrow> distinct (keys (extend g ks))"
  by (auto simp: keys_def extend_def distinct_map comp_def inj_on_def)

lemma touched_update:
  "k \<in> set (keys g) \<Longrightarrow> touched (AList.update k x g) ks = AList.update k x (touched g ks)"
  by (induction ks arbitrary: g)
    (simp_all add: touched_Nil touched_Cons dd_get_extend extend_update keys_extend)

lemma distinct_keys_touched: "distinct (keys g) \<Longrightarrow> distinct (keys (touched g ks))"
  by (induction ks arbitrary: g)
    (simp_all add: touched_Nil touched_Cons dd_get_extend distinct_keys_extend)

lemma adj_duplicate_edge:
  assumes "v \<in> set (adj g u)"
  shows "same_first_visits (adj g) (adj (AList.update u (adj g u @ [v]) g))"
  unfolding same_first_visits_def
proof
  fix w
  let ?g' = "AList.update u (adj g u @ [v]) g"
  show "adj ?g' w = adj g w \<or>
      (\<exists>xs n ys. adj g w = xs @ ys \<and> adj ?g' w = xs @ n # ys \<and> n \<in> set xs)"
  proof (cases "w = u")
    case True
    have "adj g w = adj g u @ []" "adj ?g' w = adj g u @ v # []"
      using True by (simp_all add: adj_update)
    with assms show ?thesis by blast
  next
    case False
    then show ?thesis by (simp add: adj_update)
  qed
qed

lemma find_strongly_connected_components_duplicate_edge:
  assumes d: "distinct (keys (graph G))" and v: "v \<in> set (adj (graph G) u)"
  shows "(\<forall>e. find_strongly_connected_components G = Inl e \<longrightarrow>
            find_strongly_connected_components (add_edge G u v) = Inl e) \<and>
         (\<forall>sccs G1. find_strongly_connected_components G = Inr (sccs, G1) \<longrightarrow>
            distinct (keys (graph G1)) \<and> v \<in> set (adj (graph G1) u) \<and>
            find_strongly_connected_components (add_edge G u v) = Inr (sccs, add_edge G1 u v))"
proof -
  let ?N = "vertices G" and ?g = "graph G"
  let ?G' = "add_edge G u v"
  let ?g' = "AList.update u (adj ?g u @ [v]) ?g"
  from v have "adj ?g u \<noteq> []" by auto
  then have ukey: "u \<in> set (keys ?g)" by (rule adj_nonempty_key)
  have g': "graph ?G' = ?g'" by (rule graph_add_edge)
  have N': "vertices ?G' = ?N" by (rule vertices_add_edge)
  have G': "?G' = G\<lparr>graph := ?g'\<rparr>" using g' by (simp add: add_edge_def split: prod.splits)
  have sfv: "same_first_visits (adj ?g) (adj ?g')" using v by (rule adj_duplicate_edge)
  note rel1 = depth_first_search_same_first_visits(2)
    [OF sfv, of "map int [0..<?N]" "replicate ?N False" "[]", folded first_pass_loop]
  show ?thesis
  proof (cases "first_pass ?g (map int [0..<?N]) (replicate ?N False) []")
    case (Inl e)
    with rel1 have "first_pass ?g' (map int [0..<?N]) (replicate ?N False) [] = Inl e" by blast
    with Inl show ?thesis by (simp add: find_strongly_connected_components_def g' N')
  next
    case (Inr r)
    obtain ga vis1 S where r: "r = (ga, vis1, S)" by (cases r)
    from rel1 Inr r obtain ks where ks: "ga = touched ?g ks"
      and run1': "first_pass ?g' (map int [0..<?N]) (replicate ?N False) []
          = Inr (touched ?g' ks, vis1, S)"
      by blast
    let ?h = "touched ?g ks"
    let ?h' = "AList.update u (adj ?h u @ [v]) ?h"
    let ?G1 = "G\<lparr>graph := ?h\<rparr>"
    have hu: "adj ?h u = adj ?g u" by (simp add: adj_touched)
    have h': "touched ?g' ks = ?h'" using ukey by (simp add: touched_update hu)
    have dh: "distinct (keys ?h)" using d by (rule distinct_keys_touched)
    have vh: "v \<in> set (adj ?h u)" using v hu by simp
    have G1': "add_edge ?G1 u v = G\<lparr>graph := ?h'\<rparr>"
      using graph_add_edge [of ?G1 u v] by (simp add: add_edge_def split: prod.splits)
    have same_G1': "?G'\<lparr>graph := ?h'\<rparr> = add_edge ?G1 u v" by (simp add: G1' G')
    let ?G1' = "add_edge ?G1 u v"
    obtain T where tg: "transpose_graph ?G1 = (?G1, T)"
      using transpose_graph_self [of ?G1] by (cases "transpose_graph ?G1") simp
    obtain T' where tg': "transpose_graph ?G1' = (?G1', T')"
      using transpose_graph_self [of ?G1'] by (cases "transpose_graph ?G1'") simp
    have adjT: "adj (graph T) = sources ?h"
      using transpose_graph_adj [of ?G1] tg by auto
    have adjT': "adj (graph T') = sources ?h'"
      using transpose_graph_adj [of ?G1'] tg' by (auto simp: G1')
    have sfvT: "same_first_visits (adj (graph T)) (adj (graph T'))"
      using sources_duplicate_edge [OF dh vh] by (simp add: adjT adjT')
    note rel2 = second_pass_same_first_visits [OF sfvT, of S "replicate ?N False" "[]"]
    have scc: "find_strongly_connected_components G =
        (case second_pass (graph T) S (replicate ?N False) [] of
           Inl e \<Rightarrow> Inl e
         | Inr (t1, visited2, sccs) \<Rightarrow> Inr (sccs, ?G1))"
      unfolding find_strongly_connected_components_def
      using Inr r ks tg by (simp del: second_pass.simps)
    have scc': "find_strongly_connected_components ?G' =
        (case second_pass (graph T') S (replicate ?N False) [] of
           Inl e \<Rightarrow> Inl e
         | Inr (t1, visited2, sccs) \<Rightarrow> Inr (sccs, ?G1'))"
      unfolding find_strongly_connected_components_def
      using run1' h' tg' by (simp add: g' N' same_G1' del: second_pass.simps)
    show ?thesis
    proof (cases "second_pass (graph T) S (replicate ?N False) []")
      case (Inl e)
      with rel2 have "second_pass (graph T') S (replicate ?N False) [] = Inl e"
        by (cases "second_pass (graph T') S (replicate ?N False) []") simp_all
      with Inl show ?thesis unfolding scc scc' by simp
    next
      case (Inr r2)
      obtain t1 vis2 sccs where r2: "r2 = (t1, vis2, sccs)" by (cases r2)
      from rel2 Inr r2 obtain t1' where
        "second_pass (graph T') S (replicate ?N False) [] = Inr (t1', vis2, sccs)"
        by (cases "second_pass (graph T') S (replicate ?N False) []") auto
      with Inr r2 dh vh show ?thesis unfolding scc scc' by simp
    qed
  qed
qed

lemma build_compressed_graph_duplicate_edge:
  assumes v: "v \<in> set (adj (graph G) u)"
  shows "map_sum id fst (build_compressed_graph_from_sccs (add_edge G u v) sccs)
       = map_sum id fst (build_compressed_graph_from_sccs G sccs)"
proof -
  let ?h = "graph G"
  let ?h' = "AList.update u (adj ?h u @ [v]) ?h"
  from v have "adj ?h u \<noteq> []" by auto
  then have ukey: "u \<in> set (keys ?h)" by (rule adj_nonempty_key)
  have keysh': "keys ?h' = keys ?h" using ukey by (simp add: keys_update)
  have "\<forall>k \<in> set (keys ?h). \<forall>c. compress_edges (scc_map_of sccs) k (adj ?h' k) c
      = compress_edges (scc_map_of sccs) k (adj ?h k) c"
    using v by (auto simp: adj_update compress_edges_duplicate)
  from compress_keys_cong [OF this subset_refl, of "[]"] keysh'
  have eq: "map_sum id snd (compress_keys (scc_map_of sccs) ?h' (keys ?h') [])
      = map_sum id snd (compress_keys (scc_map_of sccs) ?h (keys ?h) [])" by simp
  show ?thesis
  proof (cases "compress_keys (scc_map_of sccs) ?h (keys ?h) []")
    case (Inl e)
    with eq have "compress_keys (scc_map_of sccs) ?h' (keys ?h') [] = Inl e"
      by (cases "compress_keys (scc_map_of sccs) ?h' (keys ?h') []") simp_all
    with Inl show ?thesis
      by (simp add: build_compressed_graph_from_sccs_def graph_add_edge)
  next
    case (Inr r)
    obtain g2 cg where r: "r = (g2, cg)" by (cases r)
    from eq Inr r obtain g2' where
      "compress_keys (scc_map_of sccs) ?h' (keys ?h') [] = Inr (g2', cg)"
      by (cases "compress_keys (scc_map_of sccs) ?h' (keys ?h') []") auto
    with Inr r show ?thesis
      by (simp add: build_compressed_graph_from_sccs_def graph_add_edge)
  qed
qed

lemma build_compressed_graph_airports:
  "build_compressed_graph_from_sccs G sccs = Inr (cg, G2) \<Longrightarrow> airports G2 = airports G"
  by (auto simp: build_compressed_graph_from_sccs_def split: sum.splits)

text \<open>
  C7. Adding a second copy of an edge that is already there changes neither the integer
  that \<open>find_minimum_additional_routes\<close> returns nor, when it fails, the error: the
  outcome is the same for every start label. The graph is any \<open>defaultdict\<close> (its keys
  are distinct), also one with vertex ids outside \<open>[0, N)\<close>.
\<close>

theorem duplicate_edge_same_result:
  assumes "distinct (keys (graph G))" and "to_airport \<in> set (adj (graph G) from_airport)"
  shows "map_sum id fst (find_minimum_additional_routes (add_edge G from_airport to_airport) start_airport)
       = map_sum id fst (find_minimum_additional_routes G start_airport)"
proof -
  let ?G' = "add_edge G from_airport to_airport"
  note rel = find_strongly_connected_components_duplicate_edge [OF assms]
  show ?thesis
  proof (cases "find_strongly_connected_components G")
    case (Inl e)
    with rel have "find_strongly_connected_components ?G' = Inl e" by blast
    with Inl show ?thesis by (simp add: find_minimum_additional_routes_def)
  next
    case (Inr r)
    obtain sccs G1 where r: "r = (sccs, G1)" by (cases r)
    let ?G1' = "add_edge G1 from_airport to_airport"
    from rel Inr r have v1: "to_airport \<in> set (adj (graph G1) from_airport)"
      and scc': "find_strongly_connected_components ?G' = Inr (sccs, ?G1')"
      by blast+
    note eq = build_compressed_graph_duplicate_edge [OF v1, of sccs]
    show ?thesis
    proof (cases "build_compressed_graph_from_sccs G1 sccs")
      case (Inl e)
      with eq have "build_compressed_graph_from_sccs ?G1' sccs = Inl e"
        by (cases "build_compressed_graph_from_sccs ?G1' sccs") simp_all
      with Inl Inr r scc' show ?thesis by (simp add: find_minimum_additional_routes_def)
    next
      case build: (Inr r2)
      obtain cg G2 where r2: "r2 = (cg, G2)" by (cases r2)
      from eq build r2 obtain G2' where
        build': "build_compressed_graph_from_sccs ?G1' sccs = Inr (cg, G2')"
        by (cases "build_compressed_graph_from_sccs ?G1' sccs") auto
      have "airports G2' = airports G2"
        using build_compressed_graph_airports [OF build'] 
          build_compressed_graph_airports [OF build [unfolded r2]]
        by (simp add: airports_add_edge)
      with Inr r scc' build r2 build' show ?thesis
        by (simp add: find_minimum_additional_routes_def split: sum.splits)
    qed
  qed
qed

theorem duplicate_edge_same_result_witness:
  "distinct (keys (graph two_cycle_graph)) \<and> 2 \<in> set (adj (graph two_cycle_graph) 1) \<and>
   map_sum id fst (find_minimum_additional_routes (add_edge two_cycle_graph 1 2) ''C'')
     = map_sum id fst (find_minimum_additional_routes two_cycle_graph ''C'')"
proof -
  have h1: "distinct (keys (graph two_cycle_graph))" by code_simp
  have h2: "2 \<in> set (adj (graph two_cycle_graph) 1)" by code_simp
  show ?thesis using h1 h2 duplicate_edge_same_result [OF h1 h2] by blast
qed

section \<open>The transposed graph is a new structure\<close>

lemma made_since_length: "made_since s0 d s \<Longrightarrow> length s0 \<le> length s"
  unfolding made_since_def by (metis length_take min.cobounded1 min.commute)

lemma map_of_deref: "map_of (deref d s) k = map_option (contents s) (map_of d k)"
  by (induction d) (auto simp: deref_def)

lemma adj_deref: "adj (deref d s) = ref_adj d s"
  by (rule ext) (simp add: adj_def ref_adj_def map_of_deref split: option.splits)

lemma keys_deref: "keys (deref d s) = map fst d"
  by (simp add: keys_def deref_def comp_def case_prod_beta)

lemma deref_update_other:
  "\<forall>(k, a') \<in> set d. a' \<noteq> a \<Longrightarrow> deref d (s[a := x]) = deref d s"
  by (induction d) (auto simp: deref_def contents_def)

lemma deref_append_other:
  "\<forall>(k, a) \<in> set d. a < length s \<Longrightarrow> deref d (s @ s') = deref d s"
  by (induction d) (auto simp: deref_def contents_def nth_append)

lemma deref_update_entry:
  "distinct (map snd d) \<Longrightarrow> map_of d k = Some a \<Longrightarrow> a < length s \<Longrightarrow>
   deref d (s[a := x]) = AList.update k x (deref d s)"
proof (induction d)
  case Nil
  then show ?case by simp
next
  case (Cons p d)
  obtain k' a' where p: "p = (k', a')" by (cases p)
  show ?case
  proof (cases "k' = k")
    case True
    with Cons.prems p have a: "a' = a" and "a \<notin> snd ` set d" by auto
    then have "\<forall>(k, a') \<in> set d. a' \<noteq> a" by (auto intro: rev_image_eqI)
    note a = a this
    from a(2) have "deref d (s[a := x]) = deref d s" by (rule deref_update_other)
    with a(1) p True Cons.prems(3) show ?thesis by (simp add: deref_def contents_def)
  next
    case False
    with Cons.prems p have m: "map_of d k = Some a" and "a' \<noteq> a"
      by (auto dest: map_of_SomeD intro: rev_image_eqI)
    with Cons.IH [OF _ m Cons.prems(3)] Cons.prems(1) p False show ?thesis
      by (simp add: deref_def contents_def)
  qed
qed

lemma ref_add_edge_made_since:
  assumes inv: "made_since s0 d s" and run: "ref_add_edge d s f t = (d', s')"
  shows "made_since s0 d' s' \<and> deref d' s' = AList.update f (adj (deref d s) f @ [t]) (deref d s)"
proof (cases "map_of d f")
  case None
  with run have d': "d' = d @ [(f, length s)]" and s': "s' = s @ [[t]]"
    by (auto simp: ref_add_edge_def ref_getitem_def ref_append_def contents_def)
  from None have fkey: "f \<notin> fst ` set d" by (simp add: map_of_eq_None_iff)
  from inv have bound: "\<forall>(k, a) \<in> set d. a < length s" by (auto simp: made_since_def)
  then have nofresh: "length s \<notin> snd ` set d" by auto
  have 1: "made_since s0 d' s'"
    using inv made_since_length [OF inv] fkey nofresh
    by (auto simp: made_since_def d' s')
  have "deref d' s' = deref d (s @ [[t]]) @ [(f, [t])]"
    by (simp add: d' s' deref_def contents_def)
  also have "deref d (s @ [[t]]) = deref d s" using bound by (rule deref_append_other)
  also have "deref d s @ [(f, [t])] = AList.update f (adj (deref d s) f @ [t]) (deref d s)"
  proof -
    have "fst ` set (deref d s) = fst ` set d"
      using keys_deref [of d s] by (simp add: keys_def flip: set_map)
    with fkey have "f \<notin> fst ` set (deref d s)" by simp
    moreover have "adj (deref d s) f = []" using None by (simp add: adj_deref ref_adj_def)
    moreover have "k \<notin> fst ` set g \<Longrightarrow> AList.update k x g = g @ [(k, x)]" for k x
      and g :: "(int \<times> int list) list"
      by (induction g) auto
    ultimately show ?thesis by simp
  qed
  finally show ?thesis using 1 by simp
next
  case (Some a)
  with run have d': "d' = d" and s': "s' = s[a := contents s a @ [t]]"
    by (auto simp: ref_add_edge_def ref_getitem_def ref_append_def)
  from Some have "(f, a) \<in> set d" by (rule map_of_SomeD)
  with inv have a: "length s0 \<le> a" "a < length s" by (auto simp: made_since_def)
  have 1: "made_since s0 d' s'"
    using inv a by (auto simp: made_since_def d' s' take_update_cancel)
  have "deref d s' = AList.update f (contents s a @ [t]) (deref d s)"
    unfolding s' using inv Some a(2) by (intro deref_update_entry) (simp_all add: made_since_def)
  moreover have "adj (deref d s) f = contents s a" using Some by (simp add: adj_deref ref_adj_def)
  ultimately show ?thesis using 1 d' by simp
qed

lemma ref_add_edges_made_since:
  "fold (\<lambda>to_airport (t, s). ref_add_edge t s to_airport k) ns (d, s) = (d', s') \<Longrightarrow>
   made_since s0 d s \<Longrightarrow> graph T = deref d s \<Longrightarrow>
   made_since s0 d' s' \<and> graph (fold (\<lambda>to_airport T. add_edge T to_airport k) ns T) = deref d' s'"
proof (induction ns arbitrary: d s T)
  case Nil
  then show ?case by simp
next
  case (Cons n ns)
  obtain d1 s1 where step: "ref_add_edge d s n k = (d1, s1)" by (cases "ref_add_edge d s n k")
  from ref_add_edge_made_since [OF Cons.prems(2) step]
  have inv1: "made_since s0 d1 s1"
    and g1: "deref d1 s1 = AList.update n (adj (deref d s) n @ [k]) (deref d s)" by simp_all
  have "graph (add_edge T n k) = deref d1 s1"
    using g1 Cons.prems(3) by (simp add: graph_add_edge)
  from Cons.IH [OF _ inv1 this] Cons.prems(1) step show ?case by simp
qed

lemma ref_transpose_graph_loop_made_since:
  "ref_transpose_graph_loop self ks d s = (self', d', s') \<Longrightarrow> store_ok self s0 \<Longrightarrow>
   set ks \<subseteq> fst ` set self \<Longrightarrow> made_since s0 d s \<Longrightarrow> graph T = deref d s \<Longrightarrow>
   self' = self \<and> made_since s0 d' s' \<and>
   graph (fold (\<lambda>k T. fold (\<lambda>to_airport T. add_edge T to_airport k) (adj (deref self s0) k) T) ks T)
     = deref d' s'"
proof (induction ks arbitrary: d s T)
  case Nil
  then show ?case by simp
next
  case (Cons k ks)
  from Cons.prems(3) obtain a where a: "map_of self k = Some a"
    by (cases "map_of self k") (auto simp: map_of_eq_None_iff)
  then have "(k, a) \<in> set self" by (rule map_of_SomeD)
  with Cons.prems(2) have bound: "a < length s0" by (auto simp: store_ok_def)
  have "take (length s0) s = s0" using Cons.prems(4) by (simp add: made_since_def)
  then have "s ! a = s0 ! a" using bound by (metis nth_take)
  with bound made_since_length [OF Cons.prems(4)]
  have same: "contents s a = adj (deref self s0) k"
    using a by (simp add: adj_deref ref_adj_def contents_def)
  obtain d1 s1 where inner:
    "fold (\<lambda>to_airport (t, s). ref_add_edge t s to_airport k) (contents s a) (d, s) = (d1, s1)"
    by (cases "fold (\<lambda>to_airport (t, s). ref_add_edge t s to_airport k) (contents s a) (d, s)")
  from ref_add_edges_made_since [OF inner Cons.prems(4,5)]
  have inv1: "made_since s0 d1 s1"
    and g1: "graph (fold (\<lambda>to_airport T. add_edge T to_airport k) (contents s a) T) = deref d1 s1"
    by simp_all
  from Cons.prems(1) a inner
  have rest: "ref_transpose_graph_loop self ks d1 s1 = (self', d', s')"
    by (simp add: ref_getitem_def)
  from Cons.IH [OF rest Cons.prems(2) _ inv1 g1] Cons.prems(3) same show ?case by simp
qed

lemma count_list_constant: "count_list (map (\<lambda>_. k) xs) u = (if k = u then length xs else 0)"
  by (induction xs) auto

lemma length_filter_eq: "length (filter (\<lambda>t. t = w) xs) = count_list xs w"
  by (induction xs) auto

lemma count_list_concat_sources:
  "distinct ks \<Longrightarrow>
   count_list (concat (map (\<lambda>k. map (\<lambda>_. k) (filter (\<lambda>t. t = w) (nb k))) ks)) u
     = (if u \<in> set ks then count_list (nb u) w else 0)"
  by (induction ks) (auto simp: count_list_constant length_filter_eq)

lemma count_list_sources:
  "distinct (keys g) \<Longrightarrow> count_list (sources g w) u = count_list (adj g u) w"
proof -
  assume d: "distinct (keys g)"
  show ?thesis
  proof (cases "u \<in> set (keys g)")
    case True
    with d show ?thesis by (simp add: sources_def count_list_concat_sources)
  next
    case False
    then have "adj g u = []" using adj_nonempty_key [of g u] by auto
    with d False show ?thesis by (simp add: sources_def count_list_concat_sources)
  qed
qed

text \<open>
  C8. \<open>_transpose_graph\<close> leaves \<open>self.graph\<close> and every list object that existed before
  the call as they were; every list of the graph it returns is an object made during the
  call, so none is shared with the original; the returned dictionary, read as a value, is
  the one \<open>transpose_graph\<close> computes; and it holds \<open>u\<close> among the neighbours of \<open>v\<close>
  exactly as often as the original holds \<open>v\<close> among the neighbours of \<open>u\<close>.
\<close>

theorem transposed_graph_is_new_and_reversed:
  assumes "store_ok self s" and "graph G = deref self s"
  shows "case ref_transpose_graph self s of
     (self1, transposed, s1) \<Rightarrow>
       self1 = self \<and> take (length s) s1 = s \<and>
       (\<forall>(k, a) \<in> set transposed. length s \<le> a \<and> a < length s1) \<and>
       distinct (map snd transposed) \<and>
       fst (transpose_graph G) = G \<and>
       deref transposed s1 = graph (snd (transpose_graph G)) \<and>
       (\<forall>u v. count_list (ref_adj transposed s1 v) u = count_list (ref_adj self s u) v)"
proof -
  obtain self1 transposed s1 where run: "ref_transpose_graph self s = (self1, transposed, s1)"
    by (cases "ref_transpose_graph self s")
  then have loop: "ref_transpose_graph_loop self (map fst self) [] s = (self1, transposed, s1)"
    by (simp add: ref_transpose_graph_def)
  have inv0: "made_since s [] s" by (simp add: made_since_def)
  have g0: "graph (Graph_init (airports G)) = deref [] s" by (simp add: Graph_init_def deref_def)
  from ref_transpose_graph_loop_made_since [OF loop assms(1) _ inv0 g0]
  have self1: "self1 = self" and inv: "made_since s transposed s1"
    and val: "graph (fold (\<lambda>k T. fold (\<lambda>to_airport T. add_edge T to_airport k)
        (adj (deref self s) k) T) (map fst self) (Graph_init (airports G))) = deref transposed s1"
    by simp_all
  have keys: "keys (graph G) = map fst self" by (simp add: assms(2) keys_deref)
  have rf: "deref transposed s1 = graph (snd (transpose_graph G))"
    using val by (simp add: transpose_graph_def transpose_graph_loop_eq assms(2) keys_deref)
  have d: "distinct (keys (graph G))" using assms(1) keys by (simp add: store_ok_def)
  have "count_list (ref_adj transposed s1 v) u = count_list (ref_adj self s u) v" for u v
  proof -
    have "ref_adj transposed s1 v = sources (graph G) v"
      using transpose_graph_adj [of G v] by (simp add: rf [symmetric] adj_deref)
    moreover have "ref_adj self s u = adj (graph G) u" by (simp add: assms(2) adj_deref)
    ultimately show ?thesis using count_list_sources [OF d] by simp
  qed
  with run self1 inv rf transpose_graph_self [of G] show ?thesis
    by (simp add: made_since_def)
qed

theorem transposed_graph_is_new_and_reversed_witness:
  "store_ok [(0, 0), (1, 1)] [[1], [0, 2]] \<and>
   graph \<lparr>airports = [(''A'', 0), (''B'', 1), (''C'', 2)], vertices = 3,
          graph = [(0, [1]), (1, [0, 2])]\<rparr> = deref [(0, 0), (1, 1)] [[1], [0, 2]] \<and>
   ref_transpose_graph [(0, 0), (1, 1)] [[1], [0, 2]]
     = ([(0, 0), (1, 1)], [(1, 2), (0, 3), (2, 4)], [[1], [0, 2], [0], [1], [1]]) \<and>
   (\<forall>u v. count_list (ref_adj [(1, 2), (0, 3), (2, 4)] [[1], [0, 2], [0], [1], [1]] v) u
       = count_list (ref_adj [(0, 0), (1, 1)] [[1], [0, 2]] u) v)"
proof -
  have h1: "store_ok [(0, 0), (1, 1)] [[1], [0, 2]]" by code_simp
  have h2: "graph \<lparr>airports = [(''A'', 0), (''B'', 1), (''C'', 2)], vertices = 3,
          graph = [(0, [1]), (1, [0, 2])]\<rparr> = deref [(0, 0), (1, 1)] [[1], [0, 2]]"
    by code_simp
  have run: "ref_transpose_graph [(0, 0), (1, 1)] [[1], [0, 2]]
     = ([(0, 0), (1, 1)], [(1, 2), (0, 3), (2, 4)], [[1], [0, 2], [0], [1], [1]])"
    by code_simp
  show ?thesis
    using h1 h2 run transposed_graph_is_new_and_reversed [OF h1 h2] by simp
qed

section \<open>Concrete runs\<close>

text \<open>
  C5. On the 18 airports and 20 routes of \<open>test.py\<close>, building the graph with
  \<open>add_routes\<close> succeeds and \<open>find_minimum_additional_routes("DSM")\<close> returns 3.
\<close>

theorem sample_DSM_needs_three_routes:
  "(case add_routes (Graph_init sample_airports) sample_routes of
      Inl e \<Rightarrow> Inl e
    | Inr G \<Rightarrow> map_sum id fst (find_minimum_additional_routes G ''DSM'')) = Inr 3"
  by code_simp

text \<open>
  The counting loop of \<open>calculate_routes_needed\<close> runs over as many indices as the
  condensed graph has keys.
\<close>

lemma fold_count:
  "fold (\<lambda>node c. if P node then c + 1 else c) xs (n::nat) = n + length (filter P xs)"
  by (induction xs arbitrary: n) auto

lemma calculate_routes_needed_over_keys:
  "calculate_routes_needed cg start_scc = spec_routes_needed (length cg) cg start_scc"
  by (simp add: calculate_routes_needed_def spec_routes_needed_def fold_count)

text \<open>
  C1. Two airports and no route: the components are \<open>[1]\<close> and \<open>[0]\<close>, the condensed
  graph has no key, so the loop over \<open>range(len(compressed_graph))\<close> runs zero times and
  the function returns 0, although component 0 (airport B) is not the start component
  and has in-degree 0: the count over all component indices is 1.
\<close>

theorem two_isolated_airports_count_zero:
  "map_sum id fst (find_strongly_connected_components (Graph_init [(''A'', 0), (''B'', 1)]))
     = Inr [[1], [0]]
   \<and> map_sum id fst (find_minimum_additional_routes (Graph_init [(''A'', 0), (''B'', 1)]) ''A'')
     = Inr 0
   \<and> calculate_routes_needed [] 1 = 0
   \<and> spec_routes_needed 2 [] 1 = 1"
  by code_simp

end
